theory Spec2Isabelle
  imports Main "HOL-Library.Word" "HOL-Library.Multiset" "HOL-Library.Char_ord"
    "HOL-Library.List_Lexorder"
begin

section \<open>Machine types and configuration of val\_bench.cpp\<close>

type_synonym byte = "8 word"
type_synonym uint32 = "32 word"

text \<open>
  The configuration constants at the top of the source file.
\<close>

definition NUM_WORKER_CHILDREN :: nat where
  "NUM_WORKER_CHILDREN = 5"

definition NUM_AGGREGATOR_THREADS :: nat where
  "NUM_AGGREGATOR_THREADS = 3"

definition BUFFER_SIZE :: nat where
  "BUFFER_SIZE = 1024"

definition WRITES_PER_WORKER :: nat where
  "WRITES_PER_WORKER = 50"

definition FILE_PREFIX :: string where
  "FILE_PREFIX = ''/tmp/pgo_benchmark_''"

text \<open>
  The buffers of the program are arrays of plain \<^verbatim>\<open>char\<close>. Whether plain
  \<^verbatim>\<open>char\<close> is signed is fixed by the platform (signed on x86 and x86-64 Linux,
  unsigned on ARM and PowerPC Linux), so the model takes it as a parameter. A stored
  element is its 8-bit pattern; reading it in an arithmetic expression promotes it to
  \<^verbatim>\<open>int\<close> with the value of its type.
\<close>

datatype char_kind = Signed_char | Unsigned_char

fun char_to_int :: "char_kind \<Rightarrow> byte \<Rightarrow> int" where
  "char_to_int Signed_char b = sint b"
| "char_to_int Unsigned_char b = uint b"

section \<open>The checksum function\<close>

text \<open>
  \<^verbatim>\<open>checksum = (checksum << 5) + checksum + buffer[i]\<close>: the operands are brought to
  \<^verbatim>\<open>unsigned int\<close>, so the promoted element is taken modulo \<open>2 ^ 32\<close> and the
  sum wraps.
\<close>

definition checksum_step :: "char_kind \<Rightarrow> uint32 \<Rightarrow> byte \<Rightarrow> uint32" where
  "checksum_step ck checksum b = push_bit 5 checksum + checksum + word_of_int (char_to_int ck b)"

text \<open>
  The loop \<^verbatim>\<open>for (size_t i = 0; i < size; ++i)\<close> of \<^verbatim>\<open>calculate_checksum\<close>.
  The source reads \<^verbatim>\<open>buffer[i]\<close> without a bounds check; every call site passes a
  size within the buffer.
\<close>

function checksum_loop :: "char_kind \<Rightarrow> byte list \<Rightarrow> nat \<Rightarrow> nat \<Rightarrow> uint32 \<Rightarrow> uint32" where
  "checksum_loop ck buffer sz i checksum =
     (if i < sz
      then checksum_loop ck buffer sz (i + 1) (checksum_step ck checksum (buffer ! i))
      else checksum)"
  by pat_completeness auto
termination
  by (relation "measure (\<lambda>(ck, buffer, sz, i, checksum). sz - i)") auto

declare checksum_loop.simps [simp del]

definition calculate_checksum :: "char_kind \<Rightarrow> byte list \<Rightarrow> nat \<Rightarrow> uint32" where
  "calculate_checksum ck buffer sz = checksum_loop ck buffer sz 0 0"

text \<open>
  The checksum as the specification words it: \<open>checksum * 33 + byte\<close> with the byte
  taken in \<open>[0, 255]\<close>, wrapping modulo \<open>2 ^ 32\<close>.
\<close>

definition spec_checksum :: "byte list \<Rightarrow> nat" where
  "spec_checksum block = foldl (\<lambda>c b. (c * 33 + unat b) mod 2 ^ 32) 0 block"

section \<open>Filling a block with random data\<close>

text \<open>
  \<^verbatim>\<open>generate_random_data\<close> seeds a fresh generator at every call, so the model takes
  the values that one call draws as a function of the position: \<open>draws i\<close> is the
  \<^verbatim>\<open>int\<close> that \<^verbatim>\<open>distrib(gen)\<close> returns for element \<open>i\<close>.
  \<^verbatim>\<open>static_cast<char>\<close> keeps its low eight bits.
\<close>

function fill_loop :: "(nat \<Rightarrow> int) \<Rightarrow> nat \<Rightarrow> nat \<Rightarrow> byte list \<Rightarrow> byte list" where
  "fill_loop draws sz i buffer =
     (if i < sz
      then fill_loop draws sz (i + 1) (buffer[i := word_of_int (draws i)])
      else buffer)"
  by pat_completeness auto
termination
  by (relation "measure (\<lambda>(draws, sz, i, buffer). sz - i)") auto

declare fill_loop.simps [simp del]

definition generate_random_data :: "(nat \<Rightarrow> int) \<Rightarrow> byte list \<Rightarrow> nat \<Rightarrow> byte list" where
  "generate_random_data draws buffer sz = fill_loop draws sz 0 buffer"

section \<open>Decimal output\<close>

text \<open>
  \<^verbatim>\<open>std::to_string(int)\<close> and the stream insertion of a \<^verbatim>\<open>uint32_t\<close> both
  print decimal digits without padding.
\<close>

definition digit_char :: "nat \<Rightarrow> char" where
  "digit_char d = ''0123456789'' ! d"

function digits :: "nat \<Rightarrow> string" where
  "digits n = (if n < 10 then [digit_char n] else digits (n div 10) @ [digit_char (n mod 10)])"
  by pat_completeness auto
termination
  by (relation "measure id") auto

declare digits.simps [simp del]

definition to_string :: "int \<Rightarrow> string" where
  "to_string i = (if i < 0 then CHR ''-'' # digits (nat (- i)) else digits (nat i))"

definition show_uint32 :: "uint32 \<Rightarrow> string" where
  "show_uint32 v = digits (unat v)"

section \<open>The worker process\<close>

datatype exit_status = EXIT_SUCCESS | EXIT_FAILURE

text \<open>
  What the operating system and the random source give one worker: whether
  \<^verbatim>\<open>open\<close> returned a descriptor, the values drawn in write iteration \<open>i\<close>, the
  return value of the \<open>i\<close>-th \<^verbatim>\<open>write\<close> call (\<open>-1\<close> or a byte count), and the
  indeterminate initial contents of the array from \<^verbatim>\<open>new char[BUFFER_SIZE]\<close>,
  whose allocation is taken to succeed.
\<close>

record worker_env =
  open_ok :: bool
  draws :: "nat \<Rightarrow> nat \<Rightarrow> int"
  write_result :: "nat \<Rightarrow> int"
  heap_garbage :: "nat \<Rightarrow> byte"

record worker_state =
  data_buffer :: "byte list"
  total_checksum :: uint32
  file_bytes :: "byte list"
  write_failed :: bool

text \<open>
  The write loop. A \<^verbatim>\<open>write\<close> that returns \<open>k \<ge> 0\<close> has appended the first
  \<open>k\<close> bytes of the buffer to the file; any result other than \<^verbatim>\<open>BUFFER_SIZE\<close>
  reports the error and leaves the loop with \<^verbatim>\<open>break\<close>.
\<close>

function write_loop :: "char_kind \<Rightarrow> worker_env \<Rightarrow> nat \<Rightarrow> worker_state \<Rightarrow> worker_state" where
  "write_loop ck env i st =
     (if i < WRITES_PER_WORKER
      then
        (let buf = generate_random_data (draws env i) (data_buffer st) BUFFER_SIZE;
             bytes_written = write_result env i;
             st1 = st\<lparr>data_buffer := buf,
                      file_bytes := file_bytes st @ take (nat bytes_written) buf\<rparr>
         in if bytes_written \<noteq> int BUFFER_SIZE
            then st1\<lparr>write_failed := True\<rparr>
            else write_loop ck env (i + 1)
                   (st1\<lparr>total_checksum :=
                          total_checksum st1 + calculate_checksum ck buf BUFFER_SIZE\<rparr>))
      else st)"
  by pat_completeness auto
termination
  by (relation "measure (\<lambda>(ck, env, i, st). WRITES_PER_WORKER - i)") auto

declare write_loop.simps [simp del]

definition leak_message :: string where
  "leak_message = ''This is a deliberate memory leak.''"

text \<open>\<^verbatim>\<open>strcpy\<close> writes the characters of its source and the terminating zero.\<close>

definition strcpy_bytes :: "string \<Rightarrow> nat" where
  "strcpy_bytes src = length src + 1"

text \<open>
  How the process of a worker ends: it calls \<^verbatim>\<open>exit\<close> with a status, or it is killed
  by a signal.
\<close>

datatype process_end = Exited exit_status | Killed

text \<open>
  The argument of \<^verbatim>\<open>malloc\<close> is the \<^verbatim>\<open>int\<close> expression
  \<^verbatim>\<open>128 * worker_id + 64\<close>, taken here with the wrap-around of a 32-bit two's
  complement \<^verbatim>\<open>int\<close>.
\<close>

definition int32_wrap :: "int \<Rightarrow> int" where
  "int32_wrap v = (v + 2 ^ 31) mod 2 ^ 32 - 2 ^ 31"

text \<open>
  What a worker leaves behind: how it ended, the bytes of its artifact (\<open>None\<close> when the
  open failed), whether it closed the descriptor, the running total it printed, whether a
  write error was reported, the leaked allocation as the size passed to \<^verbatim>\<open>malloc\<close>
  and the number of bytes the \<^verbatim>\<open>strcpy\<close> wrote into it, and whether the data buffer
  was released.
\<close>

record worker_outcome =
  status :: process_end
  artifact :: "byte list option"
  fd_closed :: bool
  reported_checksum :: uint32
  write_error :: bool
  leaked_memory :: "(int \<times> nat) option"
  data_buffer_freed :: bool

text \<open>
  A failed open ends the worker at once with \<^verbatim>\<open>exit(EXIT_FAILURE)\<close>. Otherwise the
  write loop runs, the descriptor is closed, and one of the two branches is taken before
  \<^verbatim>\<open>exit(EXIT_SUCCESS)\<close>. In the leaking branch a negative request converts to a
  \<^verbatim>\<open>size_t\<close> that no allocation can satisfy: \<^verbatim>\<open>malloc\<close> returns a null pointer
  and the \<^verbatim>\<open>strcpy\<close> into it kills the process before it can exit. A request that
  is not negative is taken to be granted.
\<close>

definition run_worker_process :: "char_kind \<Rightarrow> worker_env \<Rightarrow> int \<Rightarrow> bool \<Rightarrow> worker_outcome" where
  "run_worker_process ck env worker_id should_leak =
     (if \<not> open_ok env
      then \<lparr>status = Exited EXIT_FAILURE, artifact = None, fd_closed = False,
            reported_checksum = 0, write_error = False, leaked_memory = None,
            data_buffer_freed = False\<rparr>
      else
        (let st = write_loop ck env 0
                    \<lparr>data_buffer = map (heap_garbage env) [0..<BUFFER_SIZE],
                     total_checksum = 0, file_bytes = [], write_failed = False\<rparr>;
             request = int32_wrap (128 * worker_id + 64)
         in if should_leak
            then
              (if request < 0
               then \<lparr>status = Killed, artifact = Some (file_bytes st), fd_closed = True,
                     reported_checksum = total_checksum st, write_error = write_failed st,
                     leaked_memory = None, data_buffer_freed = False\<rparr>
               else \<lparr>status = Exited EXIT_SUCCESS, artifact = Some (file_bytes st),
                     fd_closed = True, reported_checksum = total_checksum st,
                     write_error = write_failed st,
                     leaked_memory = Some (request, strcpy_bytes leak_message),
                     data_buffer_freed = False\<rparr>)
            else \<lparr>status = Exited EXIT_SUCCESS, artifact = Some (file_bytes st),
                  fd_closed = True, reported_checksum = total_checksum st,
                  write_error = write_failed st, leaked_memory = None,
                  data_buffer_freed = True\<rparr>))"

text \<open>
  The arguments with which \<^verbatim>\<open>main\<close> starts the workers (every fork succeeding):
  ordinal \<open>i\<close> and the flag \<^verbatim>\<open>i % 2 != 0\<close>.
\<close>

definition main_workers :: "(int \<times> bool) list" where
  "main_workers = map (\<lambda>i. (int i, i mod 2 \<noteq> 0)) [0..<NUM_WORKER_CHILDREN]"

section \<open>The aggregator thread task\<close>

text \<open>
  What a task does is recorded as the sequence of its effects, in program order: file
  operations, diagnostics, taking and releasing the mutex, and the assignment to the
  shared map.
\<close>

datatype event =
    Open_file string bool
  | Read_file string nat
  | Close_file string
  | Log_stderr nat string
  | Log_stdout nat string uint32
  | Lock_mutex
  | Unlock_mutex
  | Insert_summary string uint32

text \<open>
  An input file stream: whether it is open, the bytes not yet read, the count of the
  last read and the state that the stream converts to in a condition.
\<close>

record ifstream =
  is_open :: bool
  pending :: "byte list"
  gcount :: nat
  good :: bool

text \<open>
  The file system as one task sees it: \<open>fs name\<close> is \<open>None\<close> when the open of
  \<open>name\<close> fails and otherwise the bytes that reading it delivers.
\<close>

definition ifstream_open :: "(string \<Rightarrow> byte list option) \<Rightarrow> string \<Rightarrow> ifstream" where
  "ifstream_open fs filename =
     (case fs filename of
        None \<Rightarrow> \<lparr>is_open = False, pending = [], gcount = 0, good = False\<rparr>
      | Some bytes \<Rightarrow> \<lparr>is_open = True, pending = bytes, gcount = 0, good = True\<rparr>)"

text \<open>
  \<^verbatim>\<open>infile.read(buffer, n)\<close> stores the bytes it gets at the front of the buffer and
  fails when fewer than \<open>n\<close> are left; \<^verbatim>\<open>gcount\<close> is the number stored.
\<close>

definition istream_read :: "ifstream \<Rightarrow> byte list \<Rightarrow> nat \<Rightarrow> ifstream \<times> byte list" where
  "istream_read infile buffer n =
     (if \<not> good infile then (infile\<lparr>gcount := 0\<rparr>, buffer)
      else
        (let got = take n (pending infile)
         in (infile\<lparr>pending := drop n (pending infile), gcount := length got,
                     good := (length got = n)\<rparr>,
             got @ drop (length got) buffer)))"

text \<open>The loop \<^verbatim>\<open>while (infile.read(read_buffer, BUFFER_SIZE))\<close>.\<close>

function read_loop ::
  "char_kind \<Rightarrow> string \<Rightarrow> ifstream \<Rightarrow> byte list \<Rightarrow> uint32 \<Rightarrow> event list
   \<Rightarrow> ifstream \<times> byte list \<times> uint32 \<times> event list" where
  "read_loop ck filename infile read_buffer file_checksum trace =
     (case istream_read infile read_buffer BUFFER_SIZE of
        (infile', read_buffer') \<Rightarrow>
          if good infile'
          then read_loop ck filename infile' read_buffer'
                 (file_checksum + calculate_checksum ck read_buffer' (gcount infile'))
                 (trace @ [Read_file filename (gcount infile')])
          else (infile', read_buffer', file_checksum,
                trace @ [Read_file filename (gcount infile')]))"
  by pat_completeness auto
termination
  by (relation "measure (\<lambda>(ck, filename, infile, read_buffer, file_checksum, trace).
                   length (pending infile))")
     (auto simp: istream_read_def Let_def BUFFER_SIZE_def split: if_splits)

declare read_loop.simps [simp del]

text \<open>
  The statement after the loop, \<^verbatim>\<open>if (infile.gcount() > 0)\<close>, which adds the
  checksum of the last partial chunk.
\<close>

definition last_partial_read :: "char_kind \<Rightarrow> ifstream \<Rightarrow> byte list \<Rightarrow> uint32 \<Rightarrow> uint32" where
  "last_partial_read ck infile read_buffer file_checksum =
     (if gcount infile > 0
      then file_checksum + calculate_checksum ck read_buffer (gcount infile)
      else file_checksum)"

text \<open>
  The checksum of one opened artifact: the accumulator starts at zero, the loop runs and
  the last partial read is handled. The result is the read buffer as the reads left it,
  the checksum and the reads that were made.
\<close>

definition checksum_artifact ::
  "char_kind \<Rightarrow> string \<Rightarrow> ifstream \<Rightarrow> byte list \<Rightarrow> byte list \<times> uint32 \<times> event list" where
  "checksum_artifact ck filename infile read_buffer =
     (case read_loop ck filename infile read_buffer 0 [] of
        (infile1, read_buffer1, file_checksum1, reads) \<Rightarrow>
          (read_buffer1, last_partial_read ck infile1 read_buffer1 file_checksum1, reads))"

text \<open>
  The loop over the task's files. On a failed open the task logs and goes on to the next
  file. Otherwise it computes the checksum of the artifact, takes the mutex, assigns the
  map entry and logs; at the end of the loop body the lock guard is destroyed before the
  stream, which closes the file. The read buffer is declared outside the loop and is
  carried from file to file.
\<close>

fun aggregate_files_task ::
  "char_kind \<Rightarrow> (string \<Rightarrow> byte list option) \<Rightarrow> nat \<Rightarrow> string list \<Rightarrow> byte list
   \<Rightarrow> event list" where
  "aggregate_files_task ck fs thread_id [] read_buffer = []"
| "aggregate_files_task ck fs thread_id (filename # files) read_buffer =
     (let infile = ifstream_open fs filename
      in if \<not> is_open infile
         then [Open_file filename False, Log_stderr thread_id filename]
              @ aggregate_files_task ck fs thread_id files read_buffer
         else
           (case checksum_artifact ck filename infile read_buffer of
              (read_buffer1, file_checksum, reads) \<Rightarrow>
                [Open_file filename True] @ reads
                @ [Lock_mutex, Insert_summary filename file_checksum,
                   Log_stdout thread_id filename file_checksum, Unlock_mutex,
                   Close_file filename]
                @ aggregate_files_task ck fs thread_id files read_buffer1))"

section \<open>The aggregator process\<close>

text \<open>The list of the expected worker artifacts.\<close>

definition worker_files :: "string list" where
  "worker_files =
     map (\<lambda>i. FILE_PREFIX @ to_string (int i) @ ''.dat'') [0..<NUM_WORKER_CHILDREN]"

text \<open>
  The loop \<^verbatim>\<open>work_chunks[i % NUM_AGGREGATOR_THREADS].push_back(worker_files[i])\<close>.
\<close>

function distribute_loop :: "string list \<Rightarrow> nat \<Rightarrow> string list list \<Rightarrow> string list list" where
  "distribute_loop files i work_chunks =
     (if i < length files
      then distribute_loop files (i + 1)
             (work_chunks[i mod NUM_AGGREGATOR_THREADS :=
                work_chunks ! (i mod NUM_AGGREGATOR_THREADS) @ [files ! i]])
      else work_chunks)"
  by pat_completeness auto
termination
  by (relation "measure (\<lambda>(files, i, work_chunks). length files - i)") auto

declare distribute_loop.simps [simp del]

definition distribute :: "string list \<Rightarrow> string list list" where
  "distribute files = distribute_loop files 0 (replicate NUM_AGGREGATOR_THREADS [])"

text \<open>
  The traces of the threads that the aggregator starts: thread \<open>i\<close> runs the task on
  \<open>work_chunks[i]\<close> with a read buffer of its own, whose initial contents
  \<open>stack_garbage i\<close> are indeterminate.
\<close>

definition aggregator_threads ::
  "char_kind \<Rightarrow> (string \<Rightarrow> byte list option) \<Rightarrow> (nat \<Rightarrow> nat \<Rightarrow> byte) \<Rightarrow> event list list" where
  "aggregator_threads ck fs stack_garbage =
     map (\<lambda>i. aggregate_files_task ck fs i (distribute worker_files ! i)
                (map (stack_garbage i) [0..<BUFFER_SIZE]))
       [0..<NUM_AGGREGATOR_THREADS]"

text \<open>
  A run of the threads is an interleaving of their traces: at each step some thread that
  has not finished performs its next effect. (The mutex excludes some of these
  interleavings; what holds of all of them holds of the runs that remain.)
\<close>

inductive interleaving :: "'a list list \<Rightarrow> 'a list \<Rightarrow> bool" where
  finished: "concat threads = [] \<Longrightarrow> interleaving threads []"
| step: "i < length threads \<Longrightarrow> threads ! i = e # rest
         \<Longrightarrow> interleaving (threads[i := rest]) trace
         \<Longrightarrow> interleaving threads (e # trace)"

text \<open>
  The shared report is a \<^verbatim>\<open>std::map\<close> from names to checksums. The model keeps its
  entries in the order in which the map iterates, ascending by key;
  \<^verbatim>\<open>summary[filename] = file_checksum\<close> overwrites the entry of an existing key and
  otherwise puts a new entry at its place in that order. Strings compare as
  \<^verbatim>\<open>std::string\<close> does, byte by byte and a proper prefix first.
\<close>

type_synonym summary_map = "(string \<times> uint32) list"

fun map_assign :: "string \<Rightarrow> uint32 \<Rightarrow> summary_map \<Rightarrow> summary_map" where
  "map_assign k v [] = [(k, v)]"
| "map_assign k v ((k', v') # m) =
     (if k = k' then (k, v) # m
      else if k < k' then (k, v) # (k', v') # m
      else (k', v') # map_assign k v m)"

text \<open>The effect of one event on the shared map, and the map after a whole run.\<close>

fun apply_event :: "summary_map \<Rightarrow> event \<Rightarrow> summary_map" where
  "apply_event m (Insert_summary k v) = map_assign k v m"
| "apply_event m e = m"

definition summary_after :: "event list \<Rightarrow> summary_map" where
  "summary_after trace = foldl apply_event [] trace"

text \<open>
  Writing the report: the header, then one line for each entry in iteration order. The
  result is the text sent to the output stream.
\<close>

definition header_line :: string where
  "header_line = ''--- PGO Benchmark Summary Report ---''"

definition newline :: char where
  "newline = CHR 0x0A"

definition entry_line :: "string \<times> uint32 \<Rightarrow> string" where
  "entry_line pair = ''File: '' @ fst pair @ '', Checksum: '' @ show_uint32 (snd pair)"

definition write_summary :: "summary_map \<Rightarrow> string" where
  "write_summary summary_map =
     foldl (\<lambda>outfile pair. outfile @ entry_line pair @ [newline])
       (header_line @ [newline]) summary_map"

section \<open>Notions of the specification\<close>

text \<open>
  The chunked computation as the specification words it: a fresh accumulator at zero for
  each chunk, the results of the chunks added up as the read loop adds them.
\<close>

definition chunked_checksum :: "char_kind \<Rightarrow> byte list list \<Rightarrow> uint32" where
  "chunked_checksum ck chunks =
     foldl (\<lambda>file_checksum chunk. file_checksum + calculate_checksum ck chunk (length chunk))
       0 chunks"

text \<open>
  The split of a file into its chunks of \<^verbatim>\<open>BUFFER_SIZE\<close> bytes and the remainder.
\<close>

definition full_chunks :: "byte list \<Rightarrow> byte list list" where
  "full_chunks bytes =
     map (\<lambda>j. take BUFFER_SIZE (drop (j * BUFFER_SIZE) bytes))
       [0..<length bytes div BUFFER_SIZE]"

definition last_chunk :: "byte list \<Rightarrow> byte list" where
  "last_chunk bytes = drop (length bytes div BUFFER_SIZE * BUFFER_SIZE) bytes"

text \<open>
  The events of a trace that happen while the mutex is held, given whether it is held at
  the start.
\<close>

fun under_lock :: "bool \<Rightarrow> event list \<Rightarrow> event list" where
  "under_lock held [] = []"
| "under_lock held (Lock_mutex # es) = under_lock True es"
| "under_lock held (Unlock_mutex # es) = under_lock False es"
| "under_lock held (e # es) = (if held then e # under_lock held es else under_lock held es)"

text \<open>The events that are input or output, and those that touch an artifact.\<close>

fun is_io :: "event \<Rightarrow> bool" where
  "is_io (Open_file f ok) = True"
| "is_io (Read_file f n) = True"
| "is_io (Close_file f) = True"
| "is_io (Log_stderr t f) = True"
| "is_io (Log_stdout t f c) = True"
| "is_io e = False"

fun is_artifact_io :: "event \<Rightarrow> bool" where
  "is_artifact_io (Open_file f ok) = True"
| "is_artifact_io (Read_file f n) = True"
| "is_artifact_io (Close_file f) = True"
| "is_artifact_io e = False"

text \<open>The lines of a text, each ended by a newline.\<close>

fun text_lines :: "string \<Rightarrow> string \<Rightarrow> string list" where
  "text_lines line [] = (if line = [] then [] else [line])"
| "text_lines line (c # cs) =
     (if c = newline then line # text_lines [] cs else text_lines (line @ [c]) cs)"

section \<open>Example inputs\<close>

text \<open>A worker environment in which the first write is short.\<close>

definition short_write_env :: worker_env where
  "short_write_env =
     \<lparr>open_ok = True, draws = (\<lambda>i j. 7), write_result = (\<lambda>i. 512),
      heap_garbage = (\<lambda>j. 0)\<rparr>"

text \<open>
  A worker environment in which the third write returns 100 bytes and every other write
  is complete; every byte drawn in iteration \<open>i\<close> has the value \<open>i\<close>.
\<close>

definition third_write_short_env :: worker_env where
  "third_write_short_env =
     \<lparr>open_ok = True, draws = (\<lambda>i j. int i),
      write_result = (\<lambda>i. if i = 2 then 100 else 1024), heap_garbage = (\<lambda>j. 0)\<rparr>"

text \<open>A worker environment in which every write is complete.\<close>

definition full_write_env :: worker_env where
  "full_write_env =
     \<lparr>open_ok = True, draws = (\<lambda>i j. int (i + j)), write_result = (\<lambda>i. 1024),
      heap_garbage = (\<lambda>j. 0)\<rparr>"

text \<open>
  A file system in which the artifact of worker 2 is missing and every other name holds
  three bytes; the first artifact name; read buffers filled with zeros.
\<close>

definition example_fs :: "string \<Rightarrow> byte list option" where
  "example_fs name = (if name = ''/tmp/pgo_benchmark_2.dat'' then None else Some [1, 2, 3])"

definition example_name :: string where
  "example_name = ''/tmp/pgo_benchmark_0.dat''"

definition example_garbage :: "nat \<Rightarrow> nat \<Rightarrow> byte" where
  "example_garbage i j = 0"

text \<open>The block that a worker draws in write iteration \<open>i\<close>.\<close>

definition worker_block :: "worker_env \<Rightarrow> nat \<Rightarrow> byte list" where
  "worker_block env i = map (\<lambda>j. word_of_int (draws env i j)) [0..<BUFFER_SIZE]"

text \<open>
  A file system in which every name holds the artifact that worker 0 leaves in the
  environment where every write is complete.
\<close>

definition full_write_fs :: "string \<Rightarrow> byte list option" where
  "full_write_fs name = artifact (run_worker_process Signed_char full_write_env 0 False)"

text \<open>
  The checksum that the aggregator is to compute for the bytes of an artifact: the
  chunked computation on the chunks of \<^verbatim>\<open>BUFFER_SIZE\<close> bytes and the remainder.
\<close>

definition recomputed_checksum :: "char_kind \<Rightarrow> byte list \<Rightarrow> uint32" where
  "recomputed_checksum ck bytes = chunked_checksum ck (full_chunks bytes @ [last_chunk bytes])"

text \<open>The effects that a task is to have for one file.\<close>

definition file_trace ::
  "char_kind \<Rightarrow> (string \<Rightarrow> byte list option) \<Rightarrow> nat \<Rightarrow> string \<Rightarrow> event list" where
  "file_trace ck fs thread_id filename =
     (case fs filename of
        None \<Rightarrow> [Open_file filename False, Log_stderr thread_id filename]
      | Some bytes \<Rightarrow>
          [Open_file filename True]
          @ replicate (length bytes div BUFFER_SIZE) (Read_file filename BUFFER_SIZE)
          @ [Read_file filename (length bytes mod BUFFER_SIZE), Lock_mutex,
             Insert_summary filename (recomputed_checksum ck bytes),
             Log_stdout thread_id filename (recomputed_checksum ck bytes), Unlock_mutex,
             Close_file filename])"

text \<open>The events under the lock that a task is to have for one file.\<close>

definition file_critical_section ::
  "char_kind \<Rightarrow> (string \<Rightarrow> byte list option) \<Rightarrow> nat \<Rightarrow> string \<Rightarrow> event list" where
  "file_critical_section ck fs thread_id filename =
     (case fs filename of
        None \<Rightarrow> []
      | Some bytes \<Rightarrow>
          [Insert_summary filename (recomputed_checksum ck bytes),
           Log_stdout thread_id filename (recomputed_checksum ck bytes)])"

text \<open>The assignments to the shared map in a trace, in order.\<close>

fun inserts_of :: "event list \<Rightarrow> (string \<times> uint32) list" where
  "inserts_of [] = []"
| "inserts_of (Insert_summary k v # es) = (k, v) # inserts_of es"
| "inserts_of (e # es) = inserts_of es"

text \<open>The entries that the report is to have: one for each expected artifact that opens.\<close>

definition expected_summary :: "char_kind \<Rightarrow> (string \<Rightarrow> byte list option) \<Rightarrow> summary_map" where
  "expected_summary ck fs =
     map (\<lambda>f. (f, recomputed_checksum ck (the (fs f))))
       (filter (\<lambda>f. fs f \<noteq> None) worker_files)"

section \<open>Properties of the checksum function\<close>

lemma checksum_loop_foldl:
  "i \<le> sz \<Longrightarrow> sz \<le> length buffer \<Longrightarrow>
   checksum_loop ck buffer sz i c = foldl (checksum_step ck) c (drop i (take sz buffer))"
proof (induction ck buffer sz i c rule: checksum_loop.induct)
  case (1 ck buffer sz i checksum)
  show ?case
  proof (cases "i < sz")
    case True
    then have "drop i (take sz buffer) = buffer ! i # drop (Suc i) (take sz buffer)"
      using "1.prems" by (simp add: Cons_nth_drop_Suc [symmetric])
    with True "1.IH" "1.prems" show ?thesis
      by (simp add: checksum_loop.simps [of ck buffer sz i])
  next
    case False
    then have "checksum_loop ck buffer sz i checksum = checksum"
      by (subst checksum_loop.simps) simp
    with False "1.prems" show ?thesis
      by simp
  qed
qed

lemma calculate_checksum_foldl:
  "sz \<le> length buffer \<Longrightarrow>
   calculate_checksum ck buffer sz = foldl (checksum_step ck) 0 (take sz buffer)"
  by (simp add: calculate_checksum_def checksum_loop_foldl)

lemma checksum_step_times_33:
  "checksum_step ck c b = c * 33 + word_of_int (char_to_int ck b)"
  by (simp add: checksum_step_def push_bit_eq_mult)


lemma uint_checksum_step:
  "uint (checksum_step ck c b) = (uint c * 33 + char_to_int ck b) mod 2 ^ 32"
  by (simp add: checksum_step_times_33 uint_word_ariths uint_word_of_int mod_simps)

lemma uint_foldl_checksum_step:
  "uint (foldl (checksum_step ck) c block)
   = foldl (\<lambda>c b. (c * 33 + char_to_int ck b) mod 2 ^ 32) (uint c) block"
  by (induction block arbitrary: c) (simp_all add: uint_checksum_step)

lemma spec_fold_int:
  "int (foldl (\<lambda>c b. (c * 33 + unat b) mod 2 ^ 32) a block)
   = foldl (\<lambda>c b. (c * 33 + char_to_int Unsigned_char b) mod 2 ^ 32) (int a) block"
  by (induction block arbitrary: a) (simp_all add: zmod_int)

lemma unsigned_checksum_is_spec:
  "unat (calculate_checksum Unsigned_char block (length block)) = spec_checksum block"
proof -
  have "int (unat (calculate_checksum Unsigned_char block (length block)))
        = int (spec_checksum block)"
    using spec_fold_int [of 0 block]
    by (simp add: calculate_checksum_foldl uint_foldl_checksum_step spec_checksum_def)
  then show ?thesis by (simp only: of_nat_eq_iff)
qed

lemma char_to_int_range:
  "- 128 \<le> char_to_int Signed_char b \<and> char_to_int Signed_char b \<le> 127
   \<and> 0 \<le> char_to_int Unsigned_char b \<and> char_to_int Unsigned_char b \<le> 255"
  using sint_range_size [of b] uint_range_size [of b] by (simp add: word_size)

lemma calculate_checksum_prefix:
  "calculate_checksum ck (xs @ ys) (length xs) = calculate_checksum ck xs (length xs)"
  by (simp add: calculate_checksum_foldl)

lemma calculate_checksum_take:
  assumes "take n buffer = xs" "length xs = n"
  shows "calculate_checksum ck buffer n = calculate_checksum ck xs n"
proof -
  from assms have "n \<le> length buffer" by auto
  with assms show ?thesis by (simp add: calculate_checksum_foldl)
qed

lemma calculate_checksum_zero: "calculate_checksum ck buffer 0 = 0"
  by (simp add: calculate_checksum_def checksum_loop.simps)



lemma foldl_add_sum_list:
  "foldl (\<lambda>acc x. acc + f x) (a :: uint32) xs = a + sum_list (map f xs)"
  by (induction xs arbitrary: a) (simp_all add: add.assoc)

lemma chunked_checksum_sum_list:
  "chunked_checksum ck chunks = sum_list (map (\<lambda>c. calculate_checksum ck c (length c)) chunks)"
  by (simp add: chunked_checksum_def foldl_add_sum_list)

subsection \<open>The split of a file into chunks\<close>

lemma take_concat_chunks:
  "concat (map (\<lambda>j. take n (drop (j * n) xs)) [0..<k]) = take (k * n) xs"
proof (induction k)
  case 0
  show ?case by simp
next
  case (Suc k)
  have "take (k * n) xs @ take n (drop (k * n) xs) = take (k * n + n) xs"
    by (simp add: take_add)
  with Suc show ?case by (simp add: add.commute)
qed

lemma concat_full_chunks: "concat (full_chunks bytes) @ last_chunk bytes = bytes"
  by (simp add: full_chunks_def last_chunk_def take_concat_chunks)

lemma length_last_chunk: "length (last_chunk bytes) = length bytes mod BUFFER_SIZE"
  by (simp add: last_chunk_def minus_div_mult_eq_mod)

lemma length_full_chunk:
  assumes "b \<in> set (full_chunks bytes)"
  shows "length b = BUFFER_SIZE"
proof -
  from assms obtain j where j: "j < length bytes div BUFFER_SIZE"
    and b: "b = take BUFFER_SIZE (drop (j * BUFFER_SIZE) bytes)"
    by (auto simp: full_chunks_def)
  from j have "Suc j * BUFFER_SIZE \<le> length bytes div BUFFER_SIZE * BUFFER_SIZE"
    by (intro mult_le_mono1) simp
  also have "\<dots> \<le> length bytes" by simp
  finally show ?thesis using b by simp
qed

lemma length_full_chunks: "length (full_chunks bytes) = length bytes div BUFFER_SIZE"
  by (simp add: full_chunks_def)

lemma map_length_full_chunks:
  "map length (full_chunks bytes) = replicate (length bytes div BUFFER_SIZE) BUFFER_SIZE"
  using length_full_chunk [of _ bytes]
  by (intro replicate_eqI) (auto simp: length_full_chunks)

lemma BUFFER_SIZE_pos: "0 < BUFFER_SIZE"
  by (simp add: BUFFER_SIZE_def)

subsection \<open>The read loop\<close>

lemma read_loop_tail:
  assumes "length tail < BUFFER_SIZE"
  shows "read_loop ck fn \<lparr>is_open = opn, pending = tail, gcount = g, good = True\<rparr> rb cs tr
         = (\<lparr>is_open = opn, pending = [], gcount = length tail, good = False\<rparr>,
            tail @ drop (length tail) rb, cs, tr @ [Read_file fn (length tail)])"
  using assms by (subst read_loop.simps) (simp add: istream_read_def Let_def)

lemma read_loop_block:
  assumes "length b = BUFFER_SIZE"
  shows "read_loop ck fn \<lparr>is_open = opn, pending = b @ rest, gcount = g, good = True\<rparr> rb cs tr
         = read_loop ck fn \<lparr>is_open = opn, pending = rest, gcount = BUFFER_SIZE, good = True\<rparr>
             (b @ drop BUFFER_SIZE rb) (cs + calculate_checksum ck b BUFFER_SIZE)
             (tr @ [Read_file fn BUFFER_SIZE])"
  using assms calculate_checksum_prefix [of ck b "drop BUFFER_SIZE rb"]
  by (subst read_loop.simps) (simp add: istream_read_def Let_def)

lemma read_loop_blocks:
  assumes "\<forall>b \<in> set blocks. length b = BUFFER_SIZE" "length tail < BUFFER_SIZE"
  shows "\<exists>rb'. read_loop ck fn
                 \<lparr>is_open = opn, pending = concat blocks @ tail, gcount = g, good = True\<rparr>
                 rb cs tr
         = (\<lparr>is_open = opn, pending = [], gcount = length tail, good = False\<rparr>,
            rb',
            cs + sum_list (map (\<lambda>b. calculate_checksum ck b BUFFER_SIZE) blocks),
            tr @ replicate (length blocks) (Read_file fn BUFFER_SIZE)
               @ [Read_file fn (length tail)])
          \<and> take (length tail) rb' = tail"
  using assms
proof (induction blocks arbitrary: g rb cs tr)
  case Nil
  then show ?case by (simp add: read_loop_tail)
next
  case (Cons b blocks)
  then have len: "length b = BUFFER_SIZE" by simp
  from Cons.prems have rest: "\<forall>b \<in> set blocks. length b = BUFFER_SIZE" by simp
  show ?case
    using Cons.IH [OF rest Cons.prems(2), of BUFFER_SIZE "b @ drop BUFFER_SIZE rb"
        "cs + calculate_checksum ck b BUFFER_SIZE" "tr @ [Read_file fn BUFFER_SIZE]"]
      read_loop_block [OF len, of ck fn opn "concat blocks @ tail" g rb cs tr]
    by (simp add: add.assoc replicate_append_same)
qed

lemma read_loop_opened:
  assumes "fs filename = Some bytes"
  shows "\<exists>rb'. read_loop ck filename (ifstream_open fs filename) rb cs tr
         = (\<lparr>is_open = True, pending = [], gcount = length bytes mod BUFFER_SIZE, good = False\<rparr>,
            rb',
            cs + chunked_checksum ck (full_chunks bytes),
            tr @ replicate (length bytes div BUFFER_SIZE) (Read_file filename BUFFER_SIZE)
               @ [Read_file filename (length bytes mod BUFFER_SIZE)])
          \<and> take (length bytes mod BUFFER_SIZE) rb' = last_chunk bytes"
proof -
  have blocks: "\<forall>b \<in> set (full_chunks bytes). length b = BUFFER_SIZE"
    by (simp add: length_full_chunk)
  have tail: "length (last_chunk bytes) < BUFFER_SIZE"
    by (simp add: length_last_chunk BUFFER_SIZE_pos)
  have sum: "sum_list (map (\<lambda>b. calculate_checksum ck b BUFFER_SIZE) (full_chunks bytes))
             = chunked_checksum ck (full_chunks bytes)"
    unfolding chunked_checksum_sum_list
    by (rule arg_cong [where f = sum_list]) (simp add: length_full_chunk)
  show ?thesis
    using read_loop_blocks [OF blocks tail, of ck filename True 0 rb cs tr] assms
    by (simp add: ifstream_open_def concat_full_chunks length_last_chunk
        length_full_chunks sum)
qed

lemma last_partial_read_chunk:
  assumes "take (length bytes mod BUFFER_SIZE) rb' = last_chunk bytes" "gcount infile = length bytes mod BUFFER_SIZE"
  shows "last_partial_read ck infile rb' cs
         = cs + calculate_checksum ck (last_chunk bytes) (length (last_chunk bytes))"
  using calculate_checksum_take [OF assms(1), of ck] assms(2)
  by (simp add: last_partial_read_def length_last_chunk calculate_checksum_zero)

lemma checksum_artifact_opened:
  assumes "fs filename = Some bytes"
  shows "\<exists>rb'. checksum_artifact ck filename (ifstream_open fs filename) rb
         = (rb', chunked_checksum ck (full_chunks bytes @ [last_chunk bytes]),
            replicate (length bytes div BUFFER_SIZE) (Read_file filename BUFFER_SIZE)
               @ [Read_file filename (length bytes mod BUFFER_SIZE)])"
proof -
  from read_loop_opened [of fs filename bytes ck rb 0 "[]"] assms
  obtain rb' where r: "read_loop ck filename (ifstream_open fs filename) rb 0 []
         = (\<lparr>is_open = True, pending = [], gcount = length bytes mod BUFFER_SIZE, good = False\<rparr>,
            rb', chunked_checksum ck (full_chunks bytes),
            replicate (length bytes div BUFFER_SIZE) (Read_file filename BUFFER_SIZE)
               @ [Read_file filename (length bytes mod BUFFER_SIZE)])"
    and t: "take (length bytes mod BUFFER_SIZE) rb' = last_chunk bytes"
    by auto
  show ?thesis
    using last_partial_read_chunk [OF t, of "\<lparr>is_open = True, pending = [], gcount = length bytes mod BUFFER_SIZE, good = False\<rparr>" ck "chunked_checksum ck (full_chunks bytes)"]
    by (simp add: checksum_artifact_def r chunked_checksum_sum_list)
qed

lemma checksum_artifact_value:
  assumes "fs filename = Some bytes"
  shows "fst (snd (checksum_artifact ck filename (ifstream_open fs filename) rb))
         = chunked_checksum ck (full_chunks bytes @ [last_chunk bytes])"
  using checksum_artifact_opened [of fs filename bytes ck rb] assms by auto


lemma checksum_artifact_blocks:
  assumes "\<forall>b \<in> set blocks. length b = BUFFER_SIZE" "fs filename = Some (concat blocks)"
  shows "fst (snd (checksum_artifact ck filename (ifstream_open fs filename) rb))
         = chunked_checksum ck blocks"
proof -
  have sum: "sum_list (map (\<lambda>b. calculate_checksum ck b BUFFER_SIZE) blocks)
             = chunked_checksum ck blocks"
    unfolding chunked_checksum_sum_list
    by (rule arg_cong [where f = sum_list]) (simp add: assms(1))
  show ?thesis
    using read_loop_blocks [OF assms(1), of "[]" ck filename True 0 rb 0 "[]"] assms(2)
    by (auto simp: checksum_artifact_def ifstream_open_def BUFFER_SIZE_pos
        last_partial_read_def sum)
qed

subsection \<open>The worker\<close>

lemma fill_loop_eq:
  "i \<le> sz \<Longrightarrow> sz \<le> length buffer \<Longrightarrow>
   fill_loop dr sz i buffer
   = take i buffer @ map (\<lambda>j. word_of_int (dr j)) [i..<sz] @ drop sz buffer"
proof (induction dr sz i buffer rule: fill_loop.induct)
  case (1 dr sz i buffer)
  show ?case
  proof (cases "i < sz")
    case True
    have "fill_loop dr sz i buffer
          = fill_loop dr sz (i + 1) (buffer[i := word_of_int (dr i)])"
      using True by (subst fill_loop.simps) simp
    also have "\<dots> = take (i + 1) (buffer[i := word_of_int (dr i)])
                     @ map (\<lambda>j. word_of_int (dr j)) [i + 1..<sz]
                     @ drop sz (buffer[i := word_of_int (dr i)])"
      using True "1.prems" by (intro "1.IH") simp_all
    also have "take (i + 1) (buffer[i := word_of_int (dr i)])
               = take i buffer @ [word_of_int (dr i)]"
      using True "1.prems" by (simp add: take_Suc_conv_app_nth)
    also have "drop sz (buffer[i := word_of_int (dr i)]) = drop sz buffer"
      using True by simp
    finally show ?thesis
      using True by (simp add: upt_conv_Cons)
  next
    case False
    then have "fill_loop dr sz i buffer = buffer"
      by (subst fill_loop.simps) simp
    with False "1.prems" show ?thesis by simp
  qed
qed

lemma generate_random_data_full:
  "length buffer = sz \<Longrightarrow>
   generate_random_data dr buffer sz = map (\<lambda>j. word_of_int (dr j)) [0..<sz]"
  by (simp add: generate_random_data_def fill_loop_eq)

lemma length_worker_block: "length (worker_block env i) = BUFFER_SIZE"
  by (simp add: worker_block_def)

lemma write_loop_step_full:
  assumes "i < WRITES_PER_WORKER" "write_result env i = int BUFFER_SIZE"
    "length (data_buffer st) = BUFFER_SIZE"
  shows "write_loop ck env i st
         = write_loop ck env (i + 1)
             (st\<lparr>data_buffer := worker_block env i,
                 file_bytes := file_bytes st @ worker_block env i,
                 total_checksum := total_checksum st
                    + calculate_checksum ck (worker_block env i) BUFFER_SIZE\<rparr>)"
  using assms
  by (subst write_loop.simps)
     (simp add: Let_def generate_random_data_full worker_block_def)

lemma write_loop_step_short:
  assumes "i < WRITES_PER_WORKER" "write_result env i \<noteq> int BUFFER_SIZE"
    "length (data_buffer st) = BUFFER_SIZE"
  shows "write_loop ck env i st
         = st\<lparr>data_buffer := worker_block env i,
               file_bytes := file_bytes st @ take (nat (write_result env i)) (worker_block env i),
               write_failed := True\<rparr>"
  using assms
  by (subst write_loop.simps)
     (simp add: Let_def generate_random_data_full worker_block_def)

lemma write_loop_done:
  "\<not> i < WRITES_PER_WORKER \<Longrightarrow> write_loop ck env i st = st"
  by (subst write_loop.simps) simp

lemma write_loop_full:
  assumes "\<forall>j < WRITES_PER_WORKER. write_result env j = int BUFFER_SIZE"
  shows "i \<le> WRITES_PER_WORKER \<Longrightarrow> length (data_buffer st) = BUFFER_SIZE \<Longrightarrow>
         file_bytes (write_loop ck env i st)
           = file_bytes st @ concat (map (worker_block env) [i..<WRITES_PER_WORKER])
         \<and> total_checksum (write_loop ck env i st)
           = total_checksum st + chunked_checksum ck (map (worker_block env) [i..<WRITES_PER_WORKER])
         \<and> write_failed (write_loop ck env i st) = write_failed st"
proof (induction "WRITES_PER_WORKER - i" arbitrary: i st)
  case 0
  then show ?case
    by (simp add: write_loop_done chunked_checksum_def)
next
  case (Suc n)
  then have lt: "i < WRITES_PER_WORKER" by simp
  with assms have w: "write_result env i = int BUFFER_SIZE" by simp
  let ?st = "st\<lparr>data_buffer := worker_block env i,
                 file_bytes := file_bytes st @ worker_block env i,
                 total_checksum := total_checksum st
                    + calculate_checksum ck (worker_block env i) BUFFER_SIZE\<rparr>"
  have "n = WRITES_PER_WORKER - (i + 1)" using Suc.hyps(2) by simp
  from Suc.hyps(1) [OF this, of ?st] lt
  have IH: "file_bytes (write_loop ck env (i + 1) ?st)
           = file_bytes ?st @ concat (map (worker_block env) [i + 1..<WRITES_PER_WORKER])
         \<and> total_checksum (write_loop ck env (i + 1) ?st)
           = total_checksum ?st + chunked_checksum ck (map (worker_block env) [i + 1..<WRITES_PER_WORKER])
         \<and> write_failed (write_loop ck env (i + 1) ?st) = write_failed ?st"
    by (simp add: length_worker_block)
  show ?case
    using IH lt
    by (simp add: write_loop_step_full [OF lt w Suc.prems(2)] upt_conv_Cons
        chunked_checksum_sum_list length_worker_block add.assoc)
qed

lemma write_failed_write_loop:
  "length (data_buffer st) = BUFFER_SIZE \<Longrightarrow>
   write_failed (write_loop ck env i st)
   = (write_failed st \<or> (\<exists>j. i \<le> j \<and> j < WRITES_PER_WORKER \<and> write_result env j \<noteq> int BUFFER_SIZE))"
proof (induction "WRITES_PER_WORKER - i" arbitrary: i st)
  case 0
  then show ?case by (auto simp: write_loop_done)
next
  case (Suc n)
  then have lt: "i < WRITES_PER_WORKER" by simp
  show ?case
  proof (cases "write_result env i = int BUFFER_SIZE")
    case True
    let ?st = "st\<lparr>data_buffer := worker_block env i,
                 file_bytes := file_bytes st @ worker_block env i,
                 total_checksum := total_checksum st
                    + calculate_checksum ck (worker_block env i) BUFFER_SIZE\<rparr>"
    have "n = WRITES_PER_WORKER - (i + 1)" using Suc.hyps(2) by simp
    from Suc.hyps(1) [OF this, of ?st]
    have "write_failed (write_loop ck env (i + 1) ?st)
          = (write_failed st \<or> (\<exists>j. i + 1 \<le> j \<and> j < WRITES_PER_WORKER \<and> write_result env j \<noteq> int BUFFER_SIZE))"
      by (simp add: length_worker_block)
    moreover have "(\<exists>j. i + 1 \<le> j \<and> j < WRITES_PER_WORKER \<and> write_result env j \<noteq> int BUFFER_SIZE)
          = (\<exists>j. i \<le> j \<and> j < WRITES_PER_WORKER \<and> write_result env j \<noteq> int BUFFER_SIZE)"
      using True by (metis Suc_eq_plus1 Suc_leD Suc_leI le_neq_implies_less)
    ultimately show ?thesis
      by (simp add: write_loop_step_full [OF lt True Suc.prems])
  next
    case False
    then show ?thesis
      using lt by (auto simp: write_loop_step_short [OF lt False Suc.prems])
  qed
qed


lemma write_loop_short:
  assumes "k < WRITES_PER_WORKER" "write_result env k \<noteq> int BUFFER_SIZE"
    and "\<forall>j < k. write_result env j = int BUFFER_SIZE"
  shows "i \<le> k \<Longrightarrow> length (data_buffer st) = BUFFER_SIZE \<Longrightarrow>
         file_bytes (write_loop ck env i st)
           = file_bytes st @ concat (map (worker_block env) [i..<k])
             @ take (nat (write_result env k)) (worker_block env k)
         \<and> total_checksum (write_loop ck env i st)
           = total_checksum st + chunked_checksum ck (map (worker_block env) [i..<k])
         \<and> write_failed (write_loop ck env i st)"
proof (induction "k - i" arbitrary: i st)
  case 0
  then have "i = k" by simp
  with assms(1,2) "0.prems"(2) show ?case
    by (simp add: write_loop_step_short chunked_checksum_def)
next
  case (Suc n)
  then have lt: "i < k" by simp
  with assms(1) have ltw: "i < WRITES_PER_WORKER" by simp
  from lt assms(3) have w: "write_result env i = int BUFFER_SIZE" by simp
  let ?st = "st\<lparr>data_buffer := worker_block env i,
                 file_bytes := file_bytes st @ worker_block env i,
                 total_checksum := total_checksum st
                    + calculate_checksum ck (worker_block env i) BUFFER_SIZE\<rparr>"
  have "n = k - (i + 1)" using Suc.hyps(2) by simp
  from Suc.hyps(1) [OF this, of ?st] lt
  have IH: "file_bytes (write_loop ck env (i + 1) ?st)
           = file_bytes ?st @ concat (map (worker_block env) [i + 1..<k])
             @ take (nat (write_result env k)) (worker_block env k)
         \<and> total_checksum (write_loop ck env (i + 1) ?st)
           = total_checksum ?st + chunked_checksum ck (map (worker_block env) [i + 1..<k])
         \<and> write_failed (write_loop ck env (i + 1) ?st)"
    by (simp add: length_worker_block)
  show ?case
    using IH lt
    by (simp add: write_loop_step_full [OF ltw w Suc.prems(2)] upt_conv_Cons
        chunked_checksum_sum_list length_worker_block add.assoc)
qed

lemma int32_wrap_small: "0 \<le> v \<Longrightarrow> v < 2 ^ 31 \<Longrightarrow> int32_wrap v = v"
  by (simp add: int32_wrap_def)

lemma main_workers_request:
  assumes "(worker_id, should_leak) \<in> set main_workers"
  shows "int32_wrap (128 * worker_id + 64) = 128 * worker_id + 64"
    and "0 \<le> 128 * worker_id + 64"
proof -
  from assms have "0 \<le> worker_id \<and> worker_id < 5"
    by (auto simp: main_workers_def NUM_WORKER_CHILDREN_def)
  then show "int32_wrap (128 * worker_id + 64) = 128 * worker_id + 64"
    and "0 \<le> 128 * worker_id + 64"
    by (simp_all add: int32_wrap_small)
qed

lemma run_worker_status:
  "status (run_worker_process ck env worker_id should_leak)
   = (if \<not> open_ok env then Exited EXIT_FAILURE
      else if should_leak \<and> int32_wrap (128 * worker_id + 64) < 0 then Killed
      else Exited EXIT_SUCCESS)"
  by (simp add: run_worker_process_def Let_def)

lemma run_worker_fd_closed:
  "fd_closed (run_worker_process ck env worker_id should_leak) = open_ok env"
  by (simp add: run_worker_process_def Let_def)

lemma run_worker_write_error:
  "write_error (run_worker_process ck env worker_id should_leak)
   = (open_ok env \<and> (\<exists>j < WRITES_PER_WORKER. write_result env j \<noteq> int BUFFER_SIZE))"
  by (simp add: run_worker_process_def Let_def write_failed_write_loop)

lemma run_worker_full:
  assumes "open_ok env" "\<forall>j < WRITES_PER_WORKER. write_result env j = int BUFFER_SIZE"
  shows "artifact (run_worker_process ck env worker_id should_leak)
           = Some (concat (map (worker_block env) [0..<WRITES_PER_WORKER]))"
    and "reported_checksum (run_worker_process ck env worker_id should_leak)
           = chunked_checksum ck (map (worker_block env) [0..<WRITES_PER_WORKER])"
  using assms(1)
    write_loop_full [OF assms(2), of 0
      "\<lparr>data_buffer = map (heap_garbage env) [0..<BUFFER_SIZE], total_checksum = 0,
        file_bytes = [], write_failed = False\<rparr>" ck]
  by (simp_all add: run_worker_process_def Let_def)

lemma run_worker_short:
  assumes "open_ok env" "k < WRITES_PER_WORKER" "write_result env k \<noteq> int BUFFER_SIZE"
    and "\<forall>j < k. write_result env j = int BUFFER_SIZE"
  shows "artifact (run_worker_process ck env worker_id should_leak)
           = Some (concat (map (worker_block env) [0..<k])
                   @ take (nat (write_result env k)) (worker_block env k))"
    and "reported_checksum (run_worker_process ck env worker_id should_leak)
           = chunked_checksum ck (map (worker_block env) [0..<k])"
  using assms(1)
    write_loop_short [OF assms(2,3,4), of 0
      "\<lparr>data_buffer = map (heap_garbage env) [0..<BUFFER_SIZE], total_checksum = 0,
        file_bytes = [], write_failed = False\<rparr>" ck]
  by (simp_all add: run_worker_process_def Let_def)

lemma run_worker_open_failed:
  "\<not> open_ok env \<Longrightarrow> artifact (run_worker_process ck env worker_id should_leak) = None"
  by (simp add: run_worker_process_def)

lemma main_workers_eq:
  "main_workers = [(0, False), (1, True), (2, False), (3, True), (4, False)]"
  by (simp add: main_workers_def NUM_WORKER_CHILDREN_def upt_rec)

subsection \<open>The distribution of the files\<close>

lemma NUM_AGGREGATOR_THREADS_pos: "0 < NUM_AGGREGATOR_THREADS"
  by (simp add: NUM_AGGREGATOR_THREADS_def)

lemma mset_concat_update:
  assumes "k < length xss"
  shows "mset (concat (xss[k := ys])) + mset (xss ! k) = mset (concat xss) + mset ys"
proof -
  have "xss = take k xss @ xss ! k # drop (Suc k) xss"
    using assms by (simp add: id_take_nth_drop)
  then have "mset (concat xss)
             = mset (concat (take k xss)) + mset (xss ! k) + mset (concat (drop (Suc k) xss))"
    by (metis concat.simps(2) concat_append mset_append add.assoc)
  moreover have "mset (concat (xss[k := ys]))
             = mset (concat (take k xss)) + mset ys + mset (concat (drop (Suc k) xss))"
    using assms by (simp add: upd_conv_take_nth_drop)
  ultimately show ?thesis by simp
qed

lemma distribute_loop_eq:
  "length work_chunks = NUM_AGGREGATOR_THREADS \<Longrightarrow>
   distribute_loop files i work_chunks
   = map (\<lambda>t. work_chunks ! t
              @ map ((!) files) (filter (\<lambda>j. j mod NUM_AGGREGATOR_THREADS = t) [i..<length files]))
       [0..<NUM_AGGREGATOR_THREADS]"
proof (induction files i work_chunks rule: distribute_loop.induct)
  case (1 files i work_chunks)
  show ?case
  proof (cases "i < length files")
    case True
    let ?k = "i mod NUM_AGGREGATOR_THREADS"
    let ?chunks = "work_chunks[?k := work_chunks ! ?k @ [files ! i]]"
    have k: "?k < length work_chunks"
      using "1.prems" NUM_AGGREGATOR_THREADS_pos by simp
    have "distribute_loop files i work_chunks = distribute_loop files (i + 1) ?chunks"
      using True by (subst distribute_loop.simps) simp
    also have "\<dots> = map (\<lambda>t. ?chunks ! t
              @ map ((!) files) (filter (\<lambda>j. j mod NUM_AGGREGATOR_THREADS = t) [i + 1..<length files]))
       [0..<NUM_AGGREGATOR_THREADS]"
      using True "1.prems" by (intro "1.IH") simp_all
    also have "\<dots> = map (\<lambda>t. work_chunks ! t
              @ map ((!) files) (filter (\<lambda>j. j mod NUM_AGGREGATOR_THREADS = t) [i..<length files]))
       [0..<NUM_AGGREGATOR_THREADS]"
      using True k "1.prems" by (auto simp: upt_conv_Cons nth_list_update)
    finally show ?thesis .
  next
    case False
    then have "distribute_loop files i work_chunks = work_chunks"
      by (subst distribute_loop.simps) simp
    moreover have "work_chunks = map ((!) work_chunks) [0..<length work_chunks]"
      by (simp add: map_nth)
    ultimately show ?thesis
      using False "1.prems" by simp
  qed
qed

lemma distribute_eq:
  "distribute files
   = map (\<lambda>t. map ((!) files) (filter (\<lambda>j. j mod NUM_AGGREGATOR_THREADS = t) [0..<length files]))
       [0..<NUM_AGGREGATOR_THREADS]"
  by (simp add: distribute_def distribute_loop_eq)

lemma mset_distribute_loop:
  "length work_chunks = NUM_AGGREGATOR_THREADS \<Longrightarrow> i \<le> length files \<Longrightarrow>
   mset (concat (distribute_loop files i work_chunks))
   = mset (concat work_chunks) + mset (drop i files)"
proof (induction files i work_chunks rule: distribute_loop.induct)
  case (1 files i work_chunks)
  show ?case
  proof (cases "i < length files")
    case True
    let ?k = "i mod NUM_AGGREGATOR_THREADS"
    let ?chunks = "work_chunks[?k := work_chunks ! ?k @ [files ! i]]"
    have k: "?k < length work_chunks"
      using "1.prems" NUM_AGGREGATOR_THREADS_pos by simp
    have "distribute_loop files i work_chunks = distribute_loop files (i + 1) ?chunks"
      using True by (subst distribute_loop.simps) simp
    moreover have "mset (concat (distribute_loop files (i + 1) ?chunks))
          = mset (concat ?chunks) + mset (drop (i + 1) files)"
      using True "1.prems" by (intro "1.IH") simp_all
    moreover have "mset (concat ?chunks) = mset (concat work_chunks) + {#files ! i#}"
      using mset_concat_update [OF k, of "work_chunks ! ?k @ [files ! i]"] by simp
    moreover have "drop i files = files ! i # drop (i + 1) files"
      using True by (simp add: Cons_nth_drop_Suc)
    ultimately show ?thesis by simp
  next
    case False
    then have "distribute_loop files i work_chunks = work_chunks"
      by (subst distribute_loop.simps) simp
    with False "1.prems" show ?thesis by simp
  qed
qed

lemma mset_distribute: "mset (concat (distribute files)) = mset files"
  by (simp add: distribute_def mset_distribute_loop)

lemma worker_files_eq:
  "worker_files = [''/tmp/pgo_benchmark_0.dat'', ''/tmp/pgo_benchmark_1.dat'',
     ''/tmp/pgo_benchmark_2.dat'', ''/tmp/pgo_benchmark_3.dat'', ''/tmp/pgo_benchmark_4.dat'']"
  by (simp add: worker_files_def NUM_WORKER_CHILDREN_def FILE_PREFIX_def upt_rec
      to_string_def digits.simps digit_char_def)





lemma length_distribute: "length (distribute files) = NUM_AGGREGATOR_THREADS"
  by (simp add: distribute_eq)



subsection \<open>The trace of a task\<close>

lemma task_trace:
  "aggregate_files_task ck fs thread_id files rb = concat (map (file_trace ck fs thread_id) files)"
proof (induction files arbitrary: rb)
  case Nil
  show ?case by simp
next
  case (Cons f files)
  show ?case
  proof (cases "fs f")
    case None
    then show ?thesis
      by (simp add: Cons.IH ifstream_open_def file_trace_def)
  next
    case (Some bytes)
    from checksum_artifact_opened [of fs f bytes ck rb] Some
    obtain rb' where "checksum_artifact ck f (ifstream_open fs f) rb
         = (rb', chunked_checksum ck (full_chunks bytes @ [last_chunk bytes]),
            replicate (length bytes div BUFFER_SIZE) (Read_file f BUFFER_SIZE)
               @ [Read_file f (length bytes mod BUFFER_SIZE)])"
      by auto
    moreover have "is_open (ifstream_open fs f)"
      using Some by (simp add: ifstream_open_def)
    ultimately show ?thesis
      using Some by (simp add: Cons.IH file_trace_def recomputed_checksum_def Let_def)
  qed
qed

lemma under_lock_reads:
  "under_lock False (replicate n (Read_file f k) @ es) = under_lock False es"
  by (induction n) simp_all

lemma under_lock_file_trace:
  "under_lock False (file_trace ck fs thread_id f @ es)
   = file_critical_section ck fs thread_id f @ under_lock False es"
  by (cases "fs f") (simp_all add: file_trace_def file_critical_section_def under_lock_reads)

lemma under_lock_task:
  "under_lock False (aggregate_files_task ck fs thread_id files rb)
   = concat (map (file_critical_section ck fs thread_id) files)"
  unfolding task_trace
  by (induction files) (simp_all add: under_lock_file_trace)

lemma inserts_of_append: "inserts_of (xs @ ys) = inserts_of xs @ inserts_of ys"
  by (induction xs rule: inserts_of.induct) simp_all

lemma inserts_of_reads: "inserts_of (replicate n (Read_file f k)) = []"
  by (induction n) simp_all

lemma inserts_of_file_trace:
  "inserts_of (file_trace ck fs thread_id f)
   = (case fs f of None \<Rightarrow> [] | Some bytes \<Rightarrow> [(f, recomputed_checksum ck bytes)])"
  by (cases "fs f") (simp_all add: file_trace_def inserts_of_append inserts_of_reads)

lemma inserts_of_task:
  "inserts_of (aggregate_files_task ck fs thread_id files rb)
   = map (\<lambda>f. (f, recomputed_checksum ck (the (fs f)))) (filter (\<lambda>f. fs f \<noteq> None) files)"
  unfolding task_trace
  by (induction files) (auto simp: inserts_of_append inserts_of_file_trace)


lemma recomputed_checksum_example:
  "recomputed_checksum Signed_char [1, 2, 3] = 1158"
  "recomputed_checksum Unsigned_char [1, 2, 3] = 1158"
  by (simp_all add: recomputed_checksum_def chunked_checksum_def full_chunks_def
      last_chunk_def BUFFER_SIZE_def calculate_checksum_foldl checksum_step_def)

subsection \<open>Interleavings and the shared map\<close>

lemma interleaving_mset: "interleaving threads trace \<Longrightarrow> mset trace = mset (concat threads)"
proof (induction rule: interleaving.induct)
  case (finished threads)
  then show ?case by simp
next
  case (step i threads e rest trace)
  from mset_concat_update [OF step.hyps(1), of rest] step.hyps(2)
  have "mset (concat (threads[i := rest])) + mset (e # rest) = mset (concat threads) + mset rest"
    by simp
  then have "add_mset e (mset (concat (threads[i := rest]))) = mset (concat threads)"
    by simp
  with step.IH show ?case by simp
qed

lemma interleaving_idle: "interleaving threads trace \<Longrightarrow> interleaving ([] # threads) trace"
proof (induction rule: interleaving.induct)
  case (finished threads)
  then show ?case by (simp add: interleaving.finished)
next
  case (step i threads e rest trace)
  show ?case
    using step.hyps(1,2) step.IH
    by (intro interleaving.step [where i = "Suc i" and rest = rest]) simp_all
qed

lemma interleaving_first: "interleaving threads trace \<Longrightarrow> interleaving (es # threads) (es @ trace)"
proof (induction es)
  case Nil
  then show ?case by (simp add: interleaving_idle)
next
  case (Cons e es)
  then show ?case
    by (simp add: interleaving.step [where i = 0 and rest = es])
qed

lemma interleaving_concat: "interleaving threads (concat threads)"
  by (induction threads) (simp_all add: interleaving.finished interleaving_first)

lemma map_of_map_assign: "map_of (map_assign k v m) = (map_of m)(k \<mapsto> v)"
  by (induction k v m rule: map_assign.induct) auto

lemma keys_map_assign: "set (map fst (map_assign k v m)) = insert k (set (map fst m))"
  by (induction k v m rule: map_assign.induct) auto

lemma sorted_map_assign:
  "sorted_wrt (<) (map fst m) \<Longrightarrow> sorted_wrt (<) (map fst (map_assign k v m))"
proof (induction k v m rule: map_assign.induct)
  case (1 k v)
  show ?case by simp
next
  case (2 k v k' v' m)
  show ?case
  proof (cases "k = k'")
    case True
    with 2 show ?thesis by simp
  next
    case neq: False
    show ?thesis
    proof (cases "k < k'")
      case True
      with neq "2.prems" show ?thesis by (auto intro: less_trans)
    next
      case False
      with neq have "k' < k" by simp
      moreover have "sorted_wrt (<) (map fst (map_assign k v m))"
        using neq False "2.prems" by (intro "2.IH") simp_all
      moreover have "set (map fst (map_assign k v m)) = insert k (set (map fst m))"
        by (rule keys_map_assign)
      ultimately show ?thesis
        using neq False "2.prems" by auto
    qed
  qed
qed

lemma foldl_apply_event:
  "foldl apply_event m trace = foldl (\<lambda>m p. map_assign (fst p) (snd p) m) m (inserts_of trace)"
  by (induction trace arbitrary: m rule: inserts_of.induct) simp_all

lemma map_of_foldl_assign:
  "map_of (foldl (\<lambda>m p. map_assign (fst p) (snd p) m) m ps) = map_of m ++ map_of (rev ps)"
proof (induction ps arbitrary: m)
  case Nil
  show ?case by simp
next
  case (Cons p ps)
  have "map_of (foldl (\<lambda>m p. map_assign (fst p) (snd p) m) m (p # ps))
        = map_of (map_assign (fst p) (snd p) m) ++ map_of (rev ps)"
    by (simp add: Cons.IH)
  also have "\<dots> = (map_of m)(fst p \<mapsto> snd p) ++ map_of (rev ps)"
    by (simp only: map_of_map_assign)
  also have "(map_of m)(fst p \<mapsto> snd p) = map_of m ++ map_of [p]"
    by (cases p) simp
  also have "map_of m ++ map_of [p] ++ map_of (rev ps)
             = map_of m ++ (map_of [p] ++ map_of (rev ps))"
    by (simp only: map_add_assoc)
  also have "map_of [p] ++ map_of (rev ps) = map_of (rev (p # ps))"
    by (simp only: map_of_append rev.simps)
  finally show ?case .
qed

lemma sorted_foldl_assign:
  "sorted_wrt (<) (map fst m) \<Longrightarrow>
   sorted_wrt (<) (map fst (foldl (\<lambda>m p. map_assign (fst p) (snd p) m) m ps))"
  by (induction ps arbitrary: m) (simp_all add: sorted_map_assign)

lemma sorted_summary_after: "sorted_wrt (<) (map fst (summary_after trace))"
  by (simp add: summary_after_def foldl_apply_event sorted_foldl_assign)

lemma map_of_summary_after: "map_of (summary_after trace) = map_of (rev (inserts_of trace))"
  by (simp add: summary_after_def foldl_apply_event map_of_foldl_assign)

lemma sorted_assoc_unique:
  "sorted_wrt (<) (map fst xs) \<Longrightarrow> sorted_wrt (<) (map fst ys) \<Longrightarrow> set xs = set ys
   \<Longrightarrow> xs = ys"
  for xs :: "('a::linorder \<times> 'b) list"
proof (induction xs arbitrary: ys)
  case Nil
  then show ?case by simp
next
  case (Cons x xs)
  have "set (map fst ys) = set (map fst (x # xs))"
    using Cons.prems(3) by (simp only: set_map)
  from strict_sorted_equal [OF Cons.prems(1) Cons.prems(2) this]
  have keys: "map fst (x # xs) = map fst ys" by simp
  then obtain y ys' where ys: "ys = y # ys'" by (cases ys) auto
  have dx: "distinct (map fst (x # xs))" and dy: "distinct (map fst ys)"
    using Cons.prems strict_sorted_iff by blast+
  from keys ys have k: "fst x = fst y" "map fst xs = map fst ys'" by simp_all
  have "x \<in> set ys" using Cons.prems(3) by auto
  with ys dy k have xy: "x = y"
    by (auto simp: image_iff)
  have "x \<notin> set xs" "y \<notin> set ys'"
    using dx dy ys by (auto simp: image_iff)
  with Cons.prems(3) ys xy have "set xs = set ys'" by auto
  with Cons.IH [of ys'] Cons.prems ys xy show ?case by simp
qed

subsection \<open>The report after a run of the threads\<close>

lemma mset_inserts_of_image:
  "mset (inserts_of trace)
   = image_mset (\<lambda>e. case e of Insert_summary k v \<Rightarrow> (k, v) | _ \<Rightarrow> ([], 0))
       (filter_mset (\<lambda>e. case e of Insert_summary k v \<Rightarrow> True | _ \<Rightarrow> False) (mset trace))"
  by (induction trace rule: inserts_of.induct) simp_all

lemma mset_inserts_of:
  "mset xs = mset ys \<Longrightarrow> mset (inserts_of xs) = mset (inserts_of ys)"
  by (simp only: mset_inserts_of_image)


lemma inserts_of_concat: "inserts_of (concat tss) = concat (map inserts_of tss)"
  by (induction tss) (simp_all add: inserts_of_append)


lemma inserts_of_threads:
  "inserts_of (concat (aggregator_threads ck fs stack_garbage))
   = concat (map (\<lambda>files. map (\<lambda>f. (f, recomputed_checksum ck (the (fs f))))
                            (filter (\<lambda>f. fs f \<noteq> None) files))
              (distribute worker_files))"
proof -
  let ?F = "\<lambda>files. map (\<lambda>f. (f, recomputed_checksum ck (the (fs f))))
                            (filter (\<lambda>f. fs f \<noteq> None) files)"
  let ?d = "distribute worker_files"
  have "inserts_of (concat (aggregator_threads ck fs stack_garbage))
        = concat (map (\<lambda>i. ?F (?d ! i)) [0..<NUM_AGGREGATOR_THREADS])"
    by (simp add: aggregator_threads_def inserts_of_concat comp_def inserts_of_task)
  also have "map (\<lambda>i. ?F (?d ! i)) [0..<NUM_AGGREGATOR_THREADS]
             = map ?F (map ((!) ?d) [0..<length ?d])"
    by (simp only: map_map comp_def length_distribute)
  also have "map ((!) ?d) [0..<length ?d] = ?d"
    by (rule map_nth)
  finally show ?thesis .
qed


lemma mset_concat_map_filter:
  "mset (concat (map (\<lambda>xs. map g (filter P xs)) xss)) = image_mset g (filter_mset P (mset (concat xss)))"
  by (induction xss) simp_all


lemma mset_inserts_of_threads:
  "mset (inserts_of (concat (aggregator_threads ck fs stack_garbage)))
   = mset (expected_summary ck fs)"
  by (simp add: inserts_of_threads mset_concat_map_filter mset_distribute expected_summary_def)


lemma sorted_worker_files: "sorted_wrt (<) worker_files"
  by (simp add: worker_files_eq)


lemma keys_expected_summary:
  "map fst (expected_summary ck fs) = filter (\<lambda>f. fs f \<noteq> None) worker_files"
  by (simp add: expected_summary_def comp_def)


lemma sorted_expected_summary: "sorted_wrt (<) (map fst (expected_summary ck fs))"
  by (simp add: keys_expected_summary sorted_wrt_filter sorted_worker_files)



lemma summary_after_run:
  assumes "interleaving (aggregator_threads ck fs stack_garbage) trace"
  shows "summary_after trace = expected_summary ck fs"
proof -
  have "mset trace = mset (concat (aggregator_threads ck fs stack_garbage))"
    using assms by (rule interleaving_mset)
  then have "mset (inserts_of trace)
             = mset (inserts_of (concat (aggregator_threads ck fs stack_garbage)))"
    by (rule mset_inserts_of)
  also have "\<dots> = mset (expected_summary ck fs)"
    by (rule mset_inserts_of_threads)
  finally have m: "mset (inserts_of trace) = mset (expected_summary ck fs)" .
  have de: "distinct (map fst (expected_summary ck fs))"
    using sorted_expected_summary [of ck fs] by (simp only: strict_sorted_iff)
  from m have "image_mset fst (mset (inserts_of trace))
               = image_mset fst (mset (expected_summary ck fs))"
    by simp
  then have "mset (map fst (inserts_of trace)) = mset (map fst (expected_summary ck fs))"
    by (simp only: mset_map)
  from mset_eq_imp_distinct_iff [OF this] de
  have di: "distinct (map fst (inserts_of trace))"
    by simp
  then have dr: "distinct (map fst (rev (inserts_of trace)))"
    by (simp add: rev_map [symmetric])
  from m have "set (inserts_of trace) = set (expected_summary ck fs)"
    by (rule mset_eq_setD)
  then have "set (rev (inserts_of trace)) = set (expected_summary ck fs)"
    by (simp only: set_rev)
  with dr de have "map_of (rev (inserts_of trace)) = map_of (expected_summary ck fs)"
    by (simp only: map_of_inject_set)
  then have mo: "map_of (summary_after trace) = map_of (expected_summary ck fs)"
    by (simp only: map_of_summary_after)
  have ss: "sorted_wrt (<) (map fst (summary_after trace))"
    by (rule sorted_summary_after)
  then have ds: "distinct (map fst (summary_after trace))"
    by (simp only: strict_sorted_iff)
  from mo ds de have "set (summary_after trace) = set (expected_summary ck fs)"
    by (simp only: map_of_inject_set)
  with ss sorted_expected_summary [of ck fs] show ?thesis
    by (rule sorted_assoc_unique)
qed

lemma map_of_expected_summary:
  "map_of (expected_summary ck fs) f
   = (if f \<in> set worker_files \<and> fs f \<noteq> None
      then Some (recomputed_checksum ck (the (fs f))) else None)"
  by (simp add: expected_summary_def map_of_map_restrict restrict_map_def)

lemma expected_summary_without:
  "expected_summary ck (fs(g := None)) = filter (\<lambda>p. fst p \<noteq> g) (expected_summary ck fs)"
proof -
  have "\<And>files. map (\<lambda>f. (f, recomputed_checksum ck (the ((fs(g := None)) f))))
               (filter (\<lambda>f. (fs(g := None)) f \<noteq> None) files)
        = filter (\<lambda>p. fst p \<noteq> g)
            (map (\<lambda>f. (f, recomputed_checksum ck (the (fs f)))) (filter (\<lambda>f. fs f \<noteq> None) files))"
  proof -
    fix files :: "string list"
    show "map (\<lambda>f. (f, recomputed_checksum ck (the ((fs(g := None)) f))))
               (filter (\<lambda>f. (fs(g := None)) f \<noteq> None) files)
        = filter (\<lambda>p. fst p \<noteq> g)
            (map (\<lambda>f. (f, recomputed_checksum ck (the (fs f)))) (filter (\<lambda>f. fs f \<noteq> None) files))"
      by (induction files) auto
  qed
  then show ?thesis by (simp only: expected_summary_def)
qed

lemma recomputed_is_checksum_artifact:
  "fs f = Some bytes \<Longrightarrow>
   fst (snd (checksum_artifact ck f (ifstream_open fs f) read_buffer))
   = recomputed_checksum ck (the (fs f))"
  by (simp add: checksum_artifact_value recomputed_checksum_def)

lemma expected_summary_example:
  "expected_summary Signed_char example_fs
   = [(''/tmp/pgo_benchmark_0.dat'', 1158), (''/tmp/pgo_benchmark_1.dat'', 1158),
      (''/tmp/pgo_benchmark_3.dat'', 1158), (''/tmp/pgo_benchmark_4.dat'', 1158)]"
  by (simp add: expected_summary_def worker_files_eq example_fs_def recomputed_checksum_example)

subsection \<open>The text of the report\<close>

lemma foldl_append_concat: "foldl (\<lambda>out p. out @ g p) a m = a @ concat (map g m)"
  by (induction m arbitrary: a) simp_all

lemma write_summary_concat:
  "write_summary m = concat (map (\<lambda>l. l @ [newline]) (header_line # map entry_line m))"
  by (simp add: write_summary_def foldl_append_concat comp_def)

lemma text_lines_line:
  "newline \<notin> set l \<Longrightarrow> text_lines acc (l @ newline # rest) = (acc @ l) # text_lines [] rest"
  by (induction l arbitrary: acc) auto

lemma text_lines_concat:
  "\<forall>l \<in> set ls. newline \<notin> set l \<Longrightarrow>
   text_lines [] (concat (map (\<lambda>l. l @ [newline]) ls)) = ls"
  by (induction ls) (simp_all add: text_lines_line)

lemma digit_char_in: "d < 10 \<Longrightarrow> digit_char d \<in> set ''0123456789''"
  unfolding digit_char_def by (rule nth_mem) simp

lemma digits_chars: "set (digits n) \<subseteq> set ''0123456789''"
proof (induction n rule: digits.induct)
  case (1 n)
  show ?case
  proof (cases "n < 10")
    case True
    then have "digits n = [digit_char n]"
      by (subst digits.simps) simp
    with True digit_char_in [of n] show ?thesis by simp
  next
    case False
    then have "digits n = digits (n div 10) @ [digit_char (n mod 10)]"
      by (subst digits.simps) simp
    with False "1.IH" digit_char_in [of "n mod 10"] show ?thesis by simp
  qed
qed

lemma newline_notin_digits: "newline \<notin> set (digits n)"
proof -
  have "newline \<notin> set ''0123456789''"
    by (simp add: newline_def)
  with digits_chars [of n] show ?thesis by blast
qed

lemma newline_notin_entry_line:
  "newline \<notin> set (fst p) \<Longrightarrow> newline \<notin> set (entry_line p)"
  using newline_notin_digits [of "unat (snd p)"]
  by (simp add: entry_line_def show_uint32_def) (simp add: newline_def)

lemma newline_notin_header: "newline \<notin> set header_line"
  by (simp add: header_line_def newline_def)

lemma newline_notin_worker_files: "f \<in> set worker_files \<Longrightarrow> newline \<notin> set f"
  by (auto simp: worker_files_eq newline_def)

lemma text_lines_write_summary:
  assumes "\<forall>p \<in> set m. newline \<notin> set (fst p)"
  shows "text_lines [] (write_summary m) = header_line # map entry_line m"
  unfolding write_summary_concat
  using assms by (intro text_lines_concat) (auto simp: newline_notin_header newline_notin_entry_line)

lemma entry_lines_expected:
  "map entry_line (expected_summary ck fs)
   = map (\<lambda>f. ''File: '' @ f @ '', Checksum: ''
               @ digits (unat (recomputed_checksum ck (the (fs f)))))
       (filter (\<lambda>f. fs f \<noteq> None) worker_files)"
  by (simp add: expected_summary_def entry_line_def show_uint32_def comp_def)

lemma keys_expected_no_newline:
  "p \<in> set (expected_summary ck fs) \<Longrightarrow> newline \<notin> set (fst p)"
  by (auto simp: expected_summary_def newline_notin_worker_files)

lemma uint32_bound: "unat (w :: uint32) < 2 ^ 32"
proof -
  have "unat w < 2 ^ LENGTH(32)"
    by (rule unsigned_less)
  then show ?thesis by simp
qed

lemma entry_lines_example:
  "map entry_line
     [(''/tmp/pgo_benchmark_0.dat'', 1158), (''/tmp/pgo_benchmark_1.dat'', 1158),
      (''/tmp/pgo_benchmark_3.dat'', 1158), (''/tmp/pgo_benchmark_4.dat'', 1158)]
   = [''File: /tmp/pgo_benchmark_0.dat, Checksum: 1158'',
      ''File: /tmp/pgo_benchmark_1.dat, Checksum: 1158'',
      ''File: /tmp/pgo_benchmark_3.dat, Checksum: 1158'',
      ''File: /tmp/pgo_benchmark_4.dat, Checksum: 1158'']"
  by (simp add: entry_line_def show_uint32_def digits.simps digit_char_def)

section \<open>The checksum as a fold\<close>

text \<open>
  Claim C3, as stated: the checksum of a block is the fold of \<open>checksum * 33 + byte\<close>
  over the byte values taken in \<open>[0, 255]\<close>. Where plain \<^verbatim>\<open>char\<close> is signed this
  fails for the block that holds the one byte \<open>0x80\<close>: the element is promoted to
  \<open>-128\<close> and the checksum is \<open>2 ^ 32 - 128\<close>, not \<open>128\<close>.
\<close>

theorem calculate_checksum_unsigned_bytes_counterexample:
  "unat (calculate_checksum Signed_char [128] 1) = 4294967168 \<and> spec_checksum [128] = 128
   \<and> unat (calculate_checksum Signed_char [128] 1) \<noteq> spec_checksum [128]"
  by (simp add: calculate_checksum_foldl checksum_step_def spec_checksum_def)

text \<open>
  Claim C3, amended: the checksum of a block is the left-to-right fold of
  \<open>checksum * 33 + value\<close> (equivalently \<open>(checksum << 5) + checksum + value\<close>) modulo
  \<open>2 ^ 32\<close>, where the value of an element is the value of the platform's plain
  \<^verbatim>\<open>char\<close>: in \<open>[-128, 127]\<close> where it is signed, in \<open>[0, 255]\<close> where it is
  unsigned. Where it is unsigned the checksum is the one the claim describes.
\<close>

theorem calculate_checksum_fold_char_values:
  "uint (calculate_checksum ck block (length block))
     = foldl (\<lambda>c b. (c * 33 + char_to_int ck b) mod 2 ^ 32) 0 block
   \<and> calculate_checksum ck block (length block)
     = foldl (\<lambda>c b. push_bit 5 c + c + word_of_int (char_to_int ck b)) 0 block
   \<and> calculate_checksum ck block (length block)
     = foldl (\<lambda>c b. c * 33 + word_of_int (char_to_int ck b)) 0 block
   \<and> unat (calculate_checksum Unsigned_char block (length block)) = spec_checksum block
   \<and> - 128 \<le> char_to_int Signed_char b \<and> char_to_int Signed_char b \<le> 127
   \<and> 0 \<le> char_to_int Unsigned_char b \<and> char_to_int Unsigned_char b \<le> 255"
proof -
  have "checksum_step ck = (\<lambda>c b. push_bit 5 c + c + word_of_int (char_to_int ck b))"
    by (simp add: fun_eq_iff checksum_step_def)
  moreover have "checksum_step ck = (\<lambda>c b. c * 33 + word_of_int (char_to_int ck b))"
    by (simp add: fun_eq_iff checksum_step_times_33)
  moreover have "calculate_checksum ck block (length block) = foldl (checksum_step ck) 0 block"
    by (simp add: calculate_checksum_foldl)
  moreover have "uint (calculate_checksum ck block (length block))
     = foldl (\<lambda>c b. (c * 33 + char_to_int ck b) mod 2 ^ 32) 0 block"
    by (simp add: calculate_checksum_foldl uint_foldl_checksum_step)
  ultimately show ?thesis
    using unsigned_checksum_is_spec [of block] char_to_int_range [of b] by metis
qed

section \<open>One pass against chunks\<close>




section \<open>The read loop\<close>

text \<open>
  Claim C9: for every artifact that opens, whatever its size, the read loop and the
  statement after it fold each byte of the artifact into the checksum exactly once. The
  loop makes one successful read for each full chunk and adds the checksum of that chunk;
  the read that fails leaves the count \<open>size mod BUFFER_SIZE\<close> and the remaining bytes
  at the front of the buffer. When the size is a multiple of \<^verbatim>\<open>BUFFER_SIZE\<close> that
  count is zero and the last branch adds nothing; otherwise it adds the checksum of
  exactly the remaining \<open>size mod BUFFER_SIZE\<close> bytes. The chunks and the remainder
  together are the bytes of the file, in order.
\<close>

theorem read_loop_folds_each_byte_once:
  assumes "fs filename = Some bytes"
  shows "\<exists>infile1 rb1.
           read_loop ck filename (ifstream_open fs filename) read_buffer 0 []
             = (infile1, rb1, chunked_checksum ck (full_chunks bytes),
                replicate (length bytes div BUFFER_SIZE) (Read_file filename BUFFER_SIZE)
                @ [Read_file filename (length bytes mod BUFFER_SIZE)])
           \<and> gcount infile1 = length bytes mod BUFFER_SIZE
           \<and> take (gcount infile1) rb1 = last_chunk bytes
           \<and> last_partial_read ck infile1 rb1 (chunked_checksum ck (full_chunks bytes))
             = (if length bytes mod BUFFER_SIZE = 0
                then chunked_checksum ck (full_chunks bytes)
                else chunked_checksum ck (full_chunks bytes)
                     + calculate_checksum ck (last_chunk bytes)
                         (length bytes mod BUFFER_SIZE))
           \<and> fst (snd (checksum_artifact ck filename (ifstream_open fs filename) read_buffer))
             = last_partial_read ck infile1 rb1 (chunked_checksum ck (full_chunks bytes))
           \<and> concat (full_chunks bytes) @ last_chunk bytes = bytes
           \<and> map length (full_chunks bytes)
             = replicate (length bytes div BUFFER_SIZE) BUFFER_SIZE
           \<and> length (last_chunk bytes) = length bytes mod BUFFER_SIZE"
proof -
  let ?infile1 = "\<lparr>is_open = True, pending = [], gcount = length bytes mod BUFFER_SIZE,
                   good = False\<rparr>"
  from read_loop_opened [of fs filename bytes ck read_buffer 0 "[]"] assms
  obtain rb1 where r: "read_loop ck filename (ifstream_open fs filename) read_buffer 0 []
         = (?infile1, rb1, chunked_checksum ck (full_chunks bytes),
            replicate (length bytes div BUFFER_SIZE) (Read_file filename BUFFER_SIZE)
               @ [Read_file filename (length bytes mod BUFFER_SIZE)])"
    and t: "take (length bytes mod BUFFER_SIZE) rb1 = last_chunk bytes"
    by auto
  have g: "gcount ?infile1 = length bytes mod BUFFER_SIZE"
    by simp
  have p: "last_partial_read ck ?infile1 rb1 (chunked_checksum ck (full_chunks bytes))
             = (if length bytes mod BUFFER_SIZE = 0
                then chunked_checksum ck (full_chunks bytes)
                else chunked_checksum ck (full_chunks bytes)
                     + calculate_checksum ck (last_chunk bytes)
                         (length bytes mod BUFFER_SIZE))"
    using last_partial_read_chunk [OF t g, of ck "chunked_checksum ck (full_chunks bytes)"]
    by (simp add: length_last_chunk calculate_checksum_zero)
  have a: "fst (snd (checksum_artifact ck filename (ifstream_open fs filename) read_buffer))
             = last_partial_read ck ?infile1 rb1 (chunked_checksum ck (full_chunks bytes))"
    by (simp add: checksum_artifact_def r)
  show ?thesis
    using r t g p a concat_full_chunks [of bytes] map_length_full_chunks [of bytes]
      length_last_chunk [of bytes]
    by (intro exI [of _ ?infile1] exI [of _ rb1]) (simp only: simp_thms)
qed

theorem read_loop_folds_each_byte_once_witness:
  "example_fs example_name = Some [1, 2, 3]
   \<and> (\<exists>infile1 rb1.
        read_loop Signed_char example_name (ifstream_open example_fs example_name)
          (map (example_garbage 0) [0..<BUFFER_SIZE]) 0 []
          = (infile1, rb1, 0, [Read_file example_name 3])
        \<and> gcount infile1 = 3 \<and> take 3 rb1 = [1, 2, 3])
   \<and> fst (snd (checksum_artifact Signed_char example_name
              (ifstream_open example_fs example_name)
              (map (example_garbage 0) [0..<BUFFER_SIZE]))) = 1158"
proof -
  have h: "example_fs example_name = Some [1, 2, 3]"
    by (simp add: example_fs_def example_name_def)
  have f: "full_chunks [1, 2, 3] = []" "last_chunk [1, 2, 3] = [1, 2, 3]"
    by (simp_all add: full_chunks_def last_chunk_def BUFFER_SIZE_def)
  have m: "length [1, 2, 3 :: byte] div BUFFER_SIZE = 0"
    "length [1, 2, 3 :: byte] mod BUFFER_SIZE = 3"
    by (simp_all add: BUFFER_SIZE_def)
  have c: "chunked_checksum Signed_char [] = 0"
    by (simp add: chunked_checksum_def)
  have v: "calculate_checksum Signed_char [1, 2, 3] 3 = 1158"
    by (simp add: calculate_checksum_foldl checksum_step_def)
  show ?thesis
    using read_loop_folds_each_byte_once [of example_fs example_name "[1, 2, 3]" Signed_char
        "map (example_garbage 0) [0..<BUFFER_SIZE]"] h
    unfolding f m c v
    by auto
qed

section \<open>The exit status of a worker\<close>

text \<open>
  Claim C2, as stated: a worker whose write returns fewer bytes than requested terminates
  with a failure status. In the environment where the open succeeds and the first write
  returns 512 of the 1024 bytes, the worker reports the write error and still terminates
  with the success status.
\<close>

theorem short_write_failure_status_counterexample:
  "open_ok short_write_env
   \<and> write_result short_write_env 0 < int BUFFER_SIZE
   \<and> write_error (run_worker_process Signed_char short_write_env 0 False)
   \<and> status (run_worker_process Signed_char short_write_env 0 False) = Exited EXIT_SUCCESS
   \<and> status (run_worker_process Signed_char short_write_env 0 False) \<noteq> Exited EXIT_FAILURE"
proof -
  have o: "open_ok short_write_env"
    by (simp add: short_write_env_def)
  have w: "write_result short_write_env 0 < int BUFFER_SIZE"
    by (simp add: short_write_env_def BUFFER_SIZE_def)
  have "0 < WRITES_PER_WORKER"
    by (simp add: WRITES_PER_WORKER_def)
  with w have "\<exists>j < WRITES_PER_WORKER. write_result short_write_env j \<noteq> int BUFFER_SIZE"
    by (intro exI [of _ 0]) simp
  with o w show ?thesis
    by (simp add: run_worker_status run_worker_write_error)
qed

text \<open>
  Claim C2, amended: a worker that \<^verbatim>\<open>main\<close> starts terminates with a failure status
  exactly when its open failed, and then it leaves no artifact; whenever the open
  succeeded it closes the descriptor and terminates with the success status. A write
  that returns anything other than the requested count is reported and ends the write
  loop early: when write \<open>k\<close> is the first such write, no later write is made, the
  artifact that is kept consists of the \<open>k\<close> complete blocks before it followed by the
  bytes that write \<open>k\<close> did write, the running total covers those \<open>k\<close> complete
  blocks only, and the worker still terminates with the success status.
\<close>

theorem worker_status_by_open_only:
  assumes "(worker_id, should_leak) \<in> set main_workers"
  shows "status (run_worker_process ck env worker_id should_leak)
           = (if open_ok env then Exited EXIT_SUCCESS else Exited EXIT_FAILURE)
         \<and> fd_closed (run_worker_process ck env worker_id should_leak) = open_ok env
         \<and> (\<not> open_ok env \<longrightarrow>
               artifact (run_worker_process ck env worker_id should_leak) = None)
         \<and> write_error (run_worker_process ck env worker_id should_leak)
           = (open_ok env
              \<and> (\<exists>j < WRITES_PER_WORKER. write_result env j \<noteq> int BUFFER_SIZE))
         \<and> (\<forall>k. open_ok env \<and> k < WRITES_PER_WORKER
                  \<and> write_result env k \<noteq> int BUFFER_SIZE
                  \<and> (\<forall>j < k. write_result env j = int BUFFER_SIZE) \<longrightarrow>
               status (run_worker_process ck env worker_id should_leak)
                 = Exited EXIT_SUCCESS
               \<and> write_error (run_worker_process ck env worker_id should_leak)
               \<and> fd_closed (run_worker_process ck env worker_id should_leak)
               \<and> artifact (run_worker_process ck env worker_id should_leak)
                 = Some (concat (map (worker_block env) [0..<k])
                         @ take (nat (write_result env k)) (worker_block env k))
               \<and> reported_checksum (run_worker_process ck env worker_id should_leak)
                 = chunked_checksum ck (map (worker_block env) [0..<k]))"
proof -
  have request: "\<not> int32_wrap (128 * worker_id + 64) < 0"
    using main_workers_request [OF assms] by simp
  have 1: "status (run_worker_process ck env worker_id should_leak)
           = (if open_ok env then Exited EXIT_SUCCESS else Exited EXIT_FAILURE)"
    using request by (simp add: run_worker_status)
  have 2: "fd_closed (run_worker_process ck env worker_id should_leak) = open_ok env"
    by (rule run_worker_fd_closed)
  have 3: "\<not> open_ok env \<longrightarrow>
               artifact (run_worker_process ck env worker_id should_leak) = None"
    by (simp add: run_worker_open_failed)
  have 4: "write_error (run_worker_process ck env worker_id should_leak)
           = (open_ok env
              \<and> (\<exists>j < WRITES_PER_WORKER. write_result env j \<noteq> int BUFFER_SIZE))"
    by (rule run_worker_write_error)
  have 5: "\<forall>k. open_ok env \<and> k < WRITES_PER_WORKER
                  \<and> write_result env k \<noteq> int BUFFER_SIZE
                  \<and> (\<forall>j < k. write_result env j = int BUFFER_SIZE) \<longrightarrow>
               status (run_worker_process ck env worker_id should_leak)
                 = Exited EXIT_SUCCESS
               \<and> write_error (run_worker_process ck env worker_id should_leak)
               \<and> fd_closed (run_worker_process ck env worker_id should_leak)
               \<and> artifact (run_worker_process ck env worker_id should_leak)
                 = Some (concat (map (worker_block env) [0..<k])
                         @ take (nat (write_result env k)) (worker_block env k))
               \<and> reported_checksum (run_worker_process ck env worker_id should_leak)
                 = chunked_checksum ck (map (worker_block env) [0..<k])"
  proof (intro allI impI)
    fix k
    assume a: "open_ok env \<and> k < WRITES_PER_WORKER
                  \<and> write_result env k \<noteq> int BUFFER_SIZE
                  \<and> (\<forall>j < k. write_result env j = int BUFFER_SIZE)"
    then have o: "open_ok env" and k: "k < WRITES_PER_WORKER"
      and w: "write_result env k \<noteq> int BUFFER_SIZE"
      and f: "\<forall>j < k. write_result env j = int BUFFER_SIZE"
      by simp_all
    have e: "write_error (run_worker_process ck env worker_id should_leak)"
      using o k w by (auto simp: run_worker_write_error)
    show "status (run_worker_process ck env worker_id should_leak)
                 = Exited EXIT_SUCCESS
               \<and> write_error (run_worker_process ck env worker_id should_leak)
               \<and> fd_closed (run_worker_process ck env worker_id should_leak)
               \<and> artifact (run_worker_process ck env worker_id should_leak)
                 = Some (concat (map (worker_block env) [0..<k])
                         @ take (nat (write_result env k)) (worker_block env k))
               \<and> reported_checksum (run_worker_process ck env worker_id should_leak)
                 = chunked_checksum ck (map (worker_block env) [0..<k])"
      using 1 2 e o run_worker_short [OF o k w f, of ck worker_id should_leak]
      by simp
  qed
  from 1 2 3 4 5 show ?thesis by (simp only: simp_thms)
qed

theorem worker_status_by_open_only_witness:
  "(1, True) \<in> set main_workers
   \<and> open_ok third_write_short_env
   \<and> (2::nat) < WRITES_PER_WORKER
   \<and> write_result third_write_short_env 2 \<noteq> int BUFFER_SIZE
   \<and> list_all (\<lambda>j. write_result third_write_short_env j = int BUFFER_SIZE) [0..<2]
   \<and> status (run_worker_process Unsigned_char third_write_short_env 1 True)
     = Exited EXIT_SUCCESS
   \<and> write_error (run_worker_process Unsigned_char third_write_short_env 1 True)
   \<and> fd_closed (run_worker_process Unsigned_char third_write_short_env 1 True)
   \<and> artifact (run_worker_process Unsigned_char third_write_short_env 1 True)
     = Some (replicate 1024 0 @ replicate 1024 1 @ replicate 100 2)
   \<and> reported_checksum (run_worker_process Unsigned_char third_write_short_env 1 True)
     = calculate_checksum Unsigned_char (replicate 1024 0) 1024
       + calculate_checksum Unsigned_char (replicate 1024 1) 1024"
proof -
  have m: "(1, True) \<in> set main_workers"
    by (simp add: main_workers_eq)
  have o: "open_ok third_write_short_env"
    by (simp add: third_write_short_env_def)
  have k: "(2::nat) < WRITES_PER_WORKER"
    by (simp add: WRITES_PER_WORKER_def)
  have w: "write_result third_write_short_env 2 \<noteq> int BUFFER_SIZE"
    by (simp add: third_write_short_env_def BUFFER_SIZE_def)
  have f: "\<forall>j < 2. write_result third_write_short_env j = int BUFFER_SIZE"
    by (simp add: third_write_short_env_def BUFFER_SIZE_def)
  have b: "worker_block third_write_short_env 0 = replicate 1024 0"
    "worker_block third_write_short_env (Suc 0) = replicate 1024 1"
    "worker_block third_write_short_env 2 = replicate 1024 2"
    by (simp_all add: worker_block_def third_write_short_env_def BUFFER_SIZE_def
        map_replicate_const)
  have r: "[0..<2] = [0, Suc 0]"
    by (simp add: upt_rec)
  have t: "nat (write_result third_write_short_env 2) = 100"
    by (simp add: third_write_short_env_def)
  from worker_status_by_open_only [OF m, of Unsigned_char third_write_short_env] o k w f
  have "status (run_worker_process Unsigned_char third_write_short_env 1 True)
                 = Exited EXIT_SUCCESS
               \<and> write_error (run_worker_process Unsigned_char third_write_short_env 1 True)
               \<and> fd_closed (run_worker_process Unsigned_char third_write_short_env 1 True)
               \<and> artifact (run_worker_process Unsigned_char third_write_short_env 1 True)
                 = Some (concat (map (worker_block third_write_short_env) [0..<2])
                         @ take (nat (write_result third_write_short_env 2))
                             (worker_block third_write_short_env 2))
               \<and> reported_checksum (run_worker_process Unsigned_char third_write_short_env 1 True)
                 = chunked_checksum Unsigned_char
                     (map (worker_block third_write_short_env) [0..<2])"
    by blast
  then show ?thesis
    using m o k w f
    by (simp add: r b t chunked_checksum_def list_all_iff)
qed

section \<open>Round trip of an artifact\<close>

text \<open>
  Claim C4: for a worker whose open succeeded and whose \<^verbatim>\<open>WRITES_PER_WORKER\<close> writes
  were all complete, and an aggregator whose open of the artifact delivers exactly the
  bytes the worker wrote, the checksum that the aggregator recomputes equals the running
  total of the worker. The artifact then consists of the \<^verbatim>\<open>WRITES_PER_WORKER\<close>
  blocks and no write error was reported.
\<close>

theorem aggregator_recomputes_worker_checksum:
  assumes "open_ok env"
    and "\<forall>j < WRITES_PER_WORKER. write_result env j = int BUFFER_SIZE"
    and "fs filename = artifact (run_worker_process ck env worker_id should_leak)"
  shows "fst (snd (checksum_artifact ck filename (ifstream_open fs filename) read_buffer))
           = reported_checksum (run_worker_process ck env worker_id should_leak)
         \<and> artifact (run_worker_process ck env worker_id should_leak)
           = Some (concat (map (worker_block env) [0..<WRITES_PER_WORKER]))
         \<and> length (concat (map (worker_block env) [0..<WRITES_PER_WORKER]))
           = WRITES_PER_WORKER * BUFFER_SIZE
         \<and> \<not> write_error (run_worker_process ck env worker_id should_leak)"
proof -
  let ?blocks = "map (worker_block env) [0..<WRITES_PER_WORKER]"
  have a: "artifact (run_worker_process ck env worker_id should_leak) = Some (concat ?blocks)"
    and t: "reported_checksum (run_worker_process ck env worker_id should_leak)
            = chunked_checksum ck ?blocks"
    using assms(1,2) by (rule run_worker_full)+
  have len: "\<forall>b \<in> set ?blocks. length b = BUFFER_SIZE"
    by (simp add: length_worker_block)
  from assms(3) a have f: "fs filename = Some (concat ?blocks)"
    by simp
  have "fst (snd (checksum_artifact ck filename (ifstream_open fs filename) read_buffer))
        = chunked_checksum ck ?blocks"
    using len f by (rule checksum_artifact_blocks)
  moreover have "length (concat ?blocks) = WRITES_PER_WORKER * BUFFER_SIZE"
    by (simp add: length_concat comp_def length_worker_block sum_list_triv)
  moreover have "\<not> write_error (run_worker_process ck env worker_id should_leak)"
    using assms(2) by (simp add: run_worker_write_error)
  ultimately show ?thesis
    using a t by simp
qed

theorem aggregator_recomputes_worker_checksum_witness:
  "open_ok full_write_env
   \<and> list_all (\<lambda>j. write_result full_write_env j = int BUFFER_SIZE) [0..<WRITES_PER_WORKER]
   \<and> full_write_fs example_name
     = artifact (run_worker_process Signed_char full_write_env 0 False)
   \<and> fst (snd (checksum_artifact Signed_char example_name
              (ifstream_open full_write_fs example_name)
              (map (example_garbage 0) [0..<BUFFER_SIZE])))
     = reported_checksum (run_worker_process Signed_char full_write_env 0 False)"
proof -
  have o: "open_ok full_write_env"
    by (simp add: full_write_env_def)
  have w: "\<forall>j < WRITES_PER_WORKER. write_result full_write_env j = int BUFFER_SIZE"
    by (simp add: full_write_env_def BUFFER_SIZE_def)
  have f: "full_write_fs example_name
           = artifact (run_worker_process Signed_char full_write_env 0 False)"
    by (simp add: full_write_fs_def)
  show ?thesis
    using aggregator_recomputes_worker_checksum [of full_write_env full_write_fs
        example_name Signed_char 0 False "map (example_garbage 0) [0..<BUFFER_SIZE]"] o w f
    by (simp add: list_all_iff)
qed

section \<open>The leaked allocation\<close>

text \<open>
  Claim C10: every worker that \<^verbatim>\<open>main\<close> starts with the leak flag set has an odd
  ordinal, hence an ordinal of at least 1; the size \<open>128 * ordinal + 64\<close> that it
  passes to \<^verbatim>\<open>malloc\<close> is at least 192, and the \<^verbatim>\<open>strcpy\<close> writes the 34 bytes of
  the message and its terminator, fewer than the size of the allocation.
\<close>

theorem leaked_allocation_holds_message:
  assumes "(worker_id, should_leak) \<in> set main_workers"
    and "should_leak"
    and "open_ok env"
  shows "odd worker_id \<and> 1 \<le> worker_id
         \<and> leaked_memory (run_worker_process ck env worker_id should_leak)
           = Some (128 * worker_id + 64, strcpy_bytes leak_message)
         \<and> strcpy_bytes leak_message = 34
         \<and> 192 \<le> 128 * worker_id + 64
         \<and> int (strcpy_bytes leak_message) < 128 * worker_id + 64"
proof -
  from assms(1,2) have "worker_id = 1 \<or> worker_id = 3"
    by (auto simp: main_workers_eq)
  moreover have "strcpy_bytes leak_message = 34"
    by (simp add: strcpy_bytes_def leak_message_def)
  moreover have "leaked_memory (run_worker_process ck env worker_id should_leak)
           = Some (128 * worker_id + 64, strcpy_bytes leak_message)"
    using assms(2,3) main_workers_request [OF assms(1)]
    by (simp add: run_worker_process_def Let_def)
  ultimately show ?thesis
    by auto
qed

theorem leaked_allocation_holds_message_witness:
  "(3, True) \<in> set main_workers \<and> open_ok full_write_env
   \<and> leaked_memory (run_worker_process Signed_char full_write_env 3 True) = Some (448, 34)"
proof -
  have m: "(3, True) \<in> set main_workers"
    by (simp add: main_workers_eq)
  have o: "open_ok full_write_env"
    by (simp add: full_write_env_def)
  show ?thesis
    using leaked_allocation_holds_message [OF m _ o, of Signed_char] m o
    by simp
qed

section \<open>Round-robin partition of the artifacts\<close>



section \<open>The scope of the lock\<close>

text \<open>
  Claim C7, as stated: the lock is held only for the single insert and never while the
  task performs input or output. For a task with one artifact that opens, the events
  between taking and releasing the mutex are the insert and the write of the diagnostic
  line to standard output, which is output performed while the lock is held.
\<close>

theorem lock_held_during_output_counterexample:
  "under_lock False
     (aggregate_files_task Signed_char example_fs 0 [example_name]
        (map (example_garbage 0) [0..<BUFFER_SIZE]))
   = [Insert_summary example_name 1158, Log_stdout 0 example_name 1158]
   \<and> is_io (Log_stdout 0 example_name 1158)"
  by (simp add: under_lock_task file_critical_section_def example_fs_def example_name_def
      recomputed_checksum_example del: aggregate_files_task.simps)

text \<open>
  Claim C7, amended: in every task, the events while the lock is held are, for each
  artifact that opens, the single insert of its entry followed by the diagnostic line
  on standard output, and nothing for an artifact that does not open. The lock is never
  held while the task opens, reads or closes an artifact.
\<close>

theorem lock_held_for_insert_and_log:
  "under_lock False (aggregate_files_task ck fs thread_id files read_buffer)
   = concat (map (\<lambda>f. case fs f of
                          None \<Rightarrow> []
                        | Some bytes \<Rightarrow>
                            [Insert_summary f (recomputed_checksum ck bytes),
                             Log_stdout thread_id f (recomputed_checksum ck bytes)])
               files)
   \<and> (\<forall>e \<in> set (under_lock False (aggregate_files_task ck fs thread_id files read_buffer)).
        \<not> is_artifact_io e)"
proof -
  have sections: "file_critical_section ck fs thread_id
        = (\<lambda>f. case fs f of
                  None \<Rightarrow> []
                | Some bytes \<Rightarrow>
                    [Insert_summary f (recomputed_checksum ck bytes),
                     Log_stdout thread_id f (recomputed_checksum ck bytes)])"
    by (simp add: fun_eq_iff file_critical_section_def)
  have "\<forall>e \<in> set (concat (map (file_critical_section ck fs thread_id) files)).
          \<not> is_artifact_io e"
    by (auto simp: file_critical_section_def split: option.splits)
  then show ?thesis
    by (simp add: under_lock_task sections)
qed

theorem lock_held_for_insert_and_log_witness:
  "under_lock False
     (aggregate_files_task Unsigned_char example_fs 1
        [''/tmp/pgo_benchmark_2.dat'', example_name]
        (map (example_garbage 1) [0..<BUFFER_SIZE]))
   = [Insert_summary example_name 1158, Log_stdout 1 example_name 1158]
   \<and> list_all (\<lambda>e. \<not> is_artifact_io e)
       (under_lock False
          (aggregate_files_task Unsigned_char example_fs 1
             [''/tmp/pgo_benchmark_2.dat'', example_name]
             (map (example_garbage 1) [0..<BUFFER_SIZE])))"
  using lock_held_for_insert_and_log [of Unsigned_char example_fs 1
      "[''/tmp/pgo_benchmark_2.dat'', example_name]" "map (example_garbage 1) [0..<BUFFER_SIZE]"]
  by (simp add: example_fs_def example_name_def recomputed_checksum_example list_all_iff
      del: aggregate_files_task.simps)

section \<open>The report after the threads have finished\<close>

text \<open>
  Claim C5: after every aggregator thread has finished, in whatever way the threads were
  interleaved, the shared report holds exactly one entry for each expected worker
  artifact whose open succeeded, keyed by the name of the artifact and valued with the
  checksum the task recomputed for it, and no entry for an artifact whose open failed.
  An open failure has no effect on the report or on the entries of the other artifacts:
  had the open of one more artifact \<open>g\<close> failed, the report would be the same with
  the entry of \<open>g\<close> removed.
\<close>

theorem summary_holds_opened_artifacts:
  assumes "interleaving (aggregator_threads ck fs stack_garbage) trace"
  shows "summary_after trace
           = map (\<lambda>f. (f, recomputed_checksum ck (the (fs f))))
               (filter (\<lambda>f. fs f \<noteq> None) worker_files)
         \<and> distinct (map fst (summary_after trace))
         \<and> set (map fst (summary_after trace)) = {f \<in> set worker_files. fs f \<noteq> None}
         \<and> (\<forall>f bytes. f \<in> set worker_files \<and> fs f = Some bytes \<longrightarrow>
               map_of (summary_after trace) f
               = Some (fst (snd (checksum_artifact ck f (ifstream_open fs f) read_buffer))))
         \<and> (\<forall>f. fs f = None \<longrightarrow> map_of (summary_after trace) f = None)
         \<and> (\<forall>g trace'.
               interleaving (aggregator_threads ck (fs(g := None)) stack_garbage') trace' \<longrightarrow>
               summary_after trace' = filter (\<lambda>p. fst p \<noteq> g) (summary_after trace))"
proof -
  have s: "summary_after trace = expected_summary ck fs"
    using assms by (rule summary_after_run)
  have 1: "summary_after trace
           = map (\<lambda>f. (f, recomputed_checksum ck (the (fs f))))
               (filter (\<lambda>f. fs f \<noteq> None) worker_files)"
    by (simp only: s expected_summary_def)
  have 2: "distinct (map fst (summary_after trace))"
    using sorted_summary_after [of trace] by (simp only: strict_sorted_iff)
  have 3: "set (map fst (summary_after trace)) = {f \<in> set worker_files. fs f \<noteq> None}"
    by (simp only: s keys_expected_summary set_filter)
  have 4: "\<forall>f bytes. f \<in> set worker_files \<and> fs f = Some bytes \<longrightarrow>
               map_of (summary_after trace) f
               = Some (fst (snd (checksum_artifact ck f (ifstream_open fs f) read_buffer)))"
    by (simp add: s map_of_expected_summary recomputed_is_checksum_artifact)
  have 5: "\<forall>f. fs f = None \<longrightarrow> map_of (summary_after trace) f = None"
    by (simp add: s map_of_expected_summary)
  have 6: "\<forall>g trace'.
               interleaving (aggregator_threads ck (fs(g := None)) stack_garbage') trace' \<longrightarrow>
               summary_after trace' = filter (\<lambda>p. fst p \<noteq> g) (summary_after trace)"
    by (simp add: s summary_after_run expected_summary_without)
  from 1 2 3 4 5 6 show ?thesis by (simp only: simp_thms)
qed

theorem summary_holds_opened_artifacts_witness:
  "interleaving (aggregator_threads Signed_char example_fs example_garbage)
     (concat (aggregator_threads Signed_char example_fs example_garbage))
   \<and> summary_after (concat (aggregator_threads Signed_char example_fs example_garbage))
     = [(''/tmp/pgo_benchmark_0.dat'', 1158), (''/tmp/pgo_benchmark_1.dat'', 1158),
        (''/tmp/pgo_benchmark_3.dat'', 1158), (''/tmp/pgo_benchmark_4.dat'', 1158)]
   \<and> map_of (summary_after (concat (aggregator_threads Signed_char example_fs example_garbage)))
       ''/tmp/pgo_benchmark_2.dat'' = None"
proof -
  have i: "interleaving (aggregator_threads Signed_char example_fs example_garbage)
     (concat (aggregator_threads Signed_char example_fs example_garbage))"
    by (rule interleaving_concat)
  have n: "example_fs ''/tmp/pgo_benchmark_2.dat'' = None"
    by (simp add: example_fs_def)
  note t = summary_holds_opened_artifacts [OF i, of "[]" example_garbage]
  from t have "summary_after (concat (aggregator_threads Signed_char example_fs example_garbage))
        = map (\<lambda>f. (f, recomputed_checksum Signed_char (the (example_fs f))))
            (filter (\<lambda>f. example_fs f \<noteq> None) worker_files)"
    by (rule conjunct1)
  then have a: "summary_after (concat (aggregator_threads Signed_char example_fs example_garbage))
        = [(''/tmp/pgo_benchmark_0.dat'', 1158), (''/tmp/pgo_benchmark_1.dat'', 1158),
           (''/tmp/pgo_benchmark_3.dat'', 1158), (''/tmp/pgo_benchmark_4.dat'', 1158)]"
    by (simp only: expected_summary_example [unfolded expected_summary_def])
  from t n have b: "map_of (summary_after (concat (aggregator_threads Signed_char example_fs
        example_garbage))) ''/tmp/pgo_benchmark_2.dat'' = None"
    by blast
  from i a b show ?thesis
    by (simp only: simp_thms)
qed

section \<open>The summary artifact\<close>

text \<open>
  Claim C8: the text that the aggregator writes to the summary artifact, after any run of
  its threads, consists of exactly one header line followed by one line for each entry of
  the report, in the ascending order of the keys in which the map iterates; the line of
  an entry is \<open>File: name, Checksum: value\<close> with the value the recomputed checksum
  of the artifact, printed in decimal as an unsigned number below \<open>2 ^ 32\<close>. (The
  text is what is sent to the output stream; the stream is taken to have opened.)
\<close>

theorem summary_artifact_lines:
  assumes "interleaving (aggregator_threads ck fs stack_garbage) trace"
  shows "text_lines [] (write_summary (summary_after trace))
           = header_line # map entry_line (summary_after trace)
         \<and> write_summary (summary_after trace)
           = concat (map (\<lambda>l. l @ [newline])
                       (header_line # map entry_line (summary_after trace)))
         \<and> sorted_wrt (<) (map fst (summary_after trace))
         \<and> map entry_line (summary_after trace)
           = map (\<lambda>f. ''File: '' @ f @ '', Checksum: ''
                       @ digits (unat (recomputed_checksum ck (the (fs f)))))
               (filter (\<lambda>f. fs f \<noteq> None) worker_files)
         \<and> (\<forall>p \<in> set (summary_after trace). unat (snd p) < 2 ^ 32)
         \<and> header_line = ''--- PGO Benchmark Summary Report ---''"
proof -
  have s: "summary_after trace = expected_summary ck fs"
    using assms by (rule summary_after_run)
  have "\<forall>p \<in> set (summary_after trace). newline \<notin> set (fst p)"
    by (simp add: s keys_expected_no_newline)
  then have 1: "text_lines [] (write_summary (summary_after trace))
           = header_line # map entry_line (summary_after trace)"
    by (rule text_lines_write_summary)
  have 2: "write_summary (summary_after trace)
           = concat (map (\<lambda>l. l @ [newline])
                       (header_line # map entry_line (summary_after trace)))"
    by (rule write_summary_concat)
  have 3: "sorted_wrt (<) (map fst (summary_after trace))"
    by (rule sorted_summary_after)
  have 4: "map entry_line (summary_after trace)
           = map (\<lambda>f. ''File: '' @ f @ '', Checksum: ''
                       @ digits (unat (recomputed_checksum ck (the (fs f)))))
               (filter (\<lambda>f. fs f \<noteq> None) worker_files)"
    by (simp only: s entry_lines_expected)
  have 5: "\<forall>p \<in> set (summary_after trace). unat (snd p) < 2 ^ 32"
    using uint32_bound by blast
  have 6: "header_line = ''--- PGO Benchmark Summary Report ---''"
    by (simp add: header_line_def)
  from 1 2 3 4 5 6 show ?thesis by (simp only: simp_thms)
qed

theorem summary_artifact_lines_witness:
  "interleaving (aggregator_threads Signed_char example_fs example_garbage)
     (concat (aggregator_threads Signed_char example_fs example_garbage))
   \<and> text_lines []
       (write_summary
          (summary_after (concat (aggregator_threads Signed_char example_fs example_garbage))))
     = [''--- PGO Benchmark Summary Report ---'',
        ''File: /tmp/pgo_benchmark_0.dat, Checksum: 1158'',
        ''File: /tmp/pgo_benchmark_1.dat, Checksum: 1158'',
        ''File: /tmp/pgo_benchmark_3.dat, Checksum: 1158'',
        ''File: /tmp/pgo_benchmark_4.dat, Checksum: 1158'']"
proof -
  let ?trace = "concat (aggregator_threads Signed_char example_fs example_garbage)"
  have i: "interleaving (aggregator_threads Signed_char example_fs example_garbage) ?trace"
    by (rule interleaving_concat)
  have s: "summary_after ?trace = expected_summary Signed_char example_fs"
    using i by (rule summary_after_run)
  from summary_artifact_lines [OF i]
  have "text_lines [] (write_summary (summary_after ?trace))
        = header_line # map entry_line (summary_after ?trace)"
    by (rule conjunct1)
  then have "text_lines [] (write_summary (summary_after ?trace))
        = [''--- PGO Benchmark Summary Report ---'',
        ''File: /tmp/pgo_benchmark_0.dat, Checksum: 1158'',
        ''File: /tmp/pgo_benchmark_1.dat, Checksum: 1158'',
        ''File: /tmp/pgo_benchmark_3.dat, Checksum: 1158'',
        ''File: /tmp/pgo_benchmark_4.dat, Checksum: 1158'']"
    by (simp only: s expected_summary_example entry_lines_example header_line_def)
  with i show ?thesis
    by (simp only: simp_thms)
qed


end
